theory Spec2Isabelle
  imports Complex_Main "HOL-Library.Word" "HOL-Library.Product_Lexorder" "HOL-Library.Multiset"
begin

section \<open>Solidity values and failures\<close>

text \<open>
  The contracts are compiled with Solidity 0.8.19: \<open>uint256\<close> arithmetic is checked and
  an overflow aborts the call with a panic; a failed \<open>require\<close> aborts it with the given
  message. Both are values of \<open>error\<close>; the messages are the strings of the source.
\<close>

type_synonym address = "160 word"
type_synonym bytes32 = "256 word"
type_synonym uint256 = "256 word"
type_synonym uint8 = "8 word"

datatype error = Panic | Revert string

definition checked_add :: "uint256 \<Rightarrow> uint256 \<Rightarrow> error + uint256" where
  "checked_add a b = (if unat a + unat b < 2 ^ 256 then Inr (a + b) else Inl Panic)"

definition checked_mul :: "uint256 \<Rightarrow> uint256 \<Rightarrow> error + uint256" where
  "checked_mul a b = (if unat a * unat b < 2 ^ 256 then Inr (a * b) else Inl Panic)"

text \<open>
  A function body runs on a working copy of the storage and stops either at its end or at
  the first failure: it returns the working copy together with the failure, if any.
  \<open>transact\<close> is the EVM's rule for a whole call: the working copy of a call that failed
  is thrown away.
\<close>

definition transact :: "('s \<Rightarrow> error option \<times> 's) \<Rightarrow> 's \<Rightarrow> error + 's" where
  "transact body s = (case body s of (None, s') \<Rightarrow> Inr s' | (Some e, s') \<Rightarrow> Inl e)"

section \<open>GameToken (contracts/MockUSDT.sol, second unit)\<close>

text \<open>
  \<open>GameToken\<close> is an OpenZeppelin 4.x \<open>ERC20\<close> with \<open>AccessControl\<close> and \<open>Pausable\<close>.
  The record is its storage; \<open>erc20_transfer\<close>, \<open>erc20_spendAllowance\<close>, \<open>erc20_approve\<close>
  and \<open>erc20_mint\<close> are the library's internal \<open>_transfer\<close>, \<open>_spendAllowance\<close>,
  \<open>_approve\<close> and \<open>_mint\<close>, whose balance updates are unchecked (as from version 4.8).
  The library's \<open>transfer\<close> and \<open>transferFrom\<close> never return \<open>false\<close>: they return
  \<open>true\<close> or revert. The message of \<open>AccessControl\<close>, which spells out the account and
  the role, is shortened.
\<close>

record GameToken =
  balances :: "address \<Rightarrow> uint256"
  allowances :: "address \<Rightarrow> address \<Rightarrow> uint256"
  totalSupply :: uint256
  paused :: bool
  admin_role :: "address \<Rightarrow> bool"
  minter_role :: "address \<Rightarrow> bool"

definition erc20_transfer :: "address \<Rightarrow> address \<Rightarrow> uint256 \<Rightarrow> GameToken \<Rightarrow> error + GameToken" where
  "erc20_transfer from to amount t =
     (if from = 0 then Inl (Revert ''ERC20: transfer from the zero address'')
      else if to = 0 then Inl (Revert ''ERC20: transfer to the zero address'')
      else if balances t from < amount then Inl (Revert ''ERC20: transfer amount exceeds balance'')
      else let b = (balances t)(from := balances t from - amount)
           in Inr (t\<lparr>balances := b(to := b to + amount)\<rparr>))"

definition erc20_approve :: "address \<Rightarrow> address \<Rightarrow> uint256 \<Rightarrow> GameToken \<Rightarrow> error + GameToken" where
  "erc20_approve owner spender amount t =
     (if owner = 0 then Inl (Revert ''ERC20: approve from the zero address'')
      else if spender = 0 then Inl (Revert ''ERC20: approve to the zero address'')
      else Inr (t\<lparr>allowances := (allowances t)(owner := (allowances t owner)(spender := amount))\<rparr>))"

definition erc20_spendAllowance :: "address \<Rightarrow> address \<Rightarrow> uint256 \<Rightarrow> GameToken \<Rightarrow> error + GameToken" where
  "erc20_spendAllowance owner spender amount t =
     (let currentAllowance = allowances t owner spender
      in if currentAllowance \<noteq> - 1 then
           if currentAllowance < amount then Inl (Revert ''ERC20: insufficient allowance'')
           else erc20_approve owner spender (currentAllowance - amount) t
         else Inr t)"

definition erc20_mint :: "address \<Rightarrow> uint256 \<Rightarrow> GameToken \<Rightarrow> error + GameToken" where
  "erc20_mint account amount t =
     (if account = 0 then Inl (Revert ''ERC20: mint to the zero address'')
      else case checked_add (totalSupply t) amount of
             Inl e \<Rightarrow> Inl e
           | Inr ts \<Rightarrow> Inr (t\<lparr>balances := (balances t)(account := balances t account + amount),
                              totalSupply := ts\<rparr>))"

text \<open>The external functions of the token; \<open>sender\<close> is \<open>msg.sender\<close>.\<close>

definition gt_transfer :: "address \<Rightarrow> address \<Rightarrow> uint256 \<Rightarrow> GameToken \<Rightarrow> error + GameToken" where
  "gt_transfer sender to amount t =
     (if paused t then Inl (Revert ''Pausable: paused'')
      else erc20_transfer sender to amount t)"

definition gt_transferFrom :: "address \<Rightarrow> address \<Rightarrow> address \<Rightarrow> uint256 \<Rightarrow> GameToken \<Rightarrow> error + GameToken" where
  "gt_transferFrom sender from to amount t =
     (if paused t then Inl (Revert ''Pausable: paused'')
      else case erc20_spendAllowance from sender amount t of
             Inl e \<Rightarrow> Inl e
           | Inr t' \<Rightarrow> erc20_transfer from to amount t')"

definition gt_approve :: "address \<Rightarrow> address \<Rightarrow> uint256 \<Rightarrow> GameToken \<Rightarrow> error + GameToken" where
  "gt_approve sender spender amount t = erc20_approve sender spender amount t"

definition gt_mint :: "address \<Rightarrow> address \<Rightarrow> uint256 \<Rightarrow> GameToken \<Rightarrow> error + GameToken" where
  "gt_mint sender to amount t =
     (if \<not> minter_role t sender then Inl (Revert ''AccessControl: account is missing role'')
      else if paused t then Inl (Revert ''Pausable: paused'')
      else erc20_mint to amount t)"

definition gt_grantMinterRole :: "address \<Rightarrow> address \<Rightarrow> GameToken \<Rightarrow> error + GameToken" where
  "gt_grantMinterRole sender tokenStore t =
     (if \<not> admin_role t sender then Inl (Revert ''AccessControl: account is missing role'')
      else Inr (t\<lparr>minter_role := (minter_role t)(tokenStore := True)\<rparr>))"

definition gt_pause :: "address \<Rightarrow> GameToken \<Rightarrow> error + GameToken" where
  "gt_pause sender t =
     (if \<not> admin_role t sender then Inl (Revert ''AccessControl: account is missing role'')
      else if paused t then Inl (Revert ''Pausable: paused'')
      else Inr (t\<lparr>paused := True\<rparr>))"

definition gt_unpause :: "address \<Rightarrow> GameToken \<Rightarrow> error + GameToken" where
  "gt_unpause sender t =
     (if \<not> admin_role t sender then Inl (Revert ''AccessControl: account is missing role'')
      else if \<not> paused t then Inl (Revert ''Pausable: not paused'')
      else Inr (t\<lparr>paused := False\<rparr>))"

text \<open>The constructor grants both roles to the deployer; nothing is minted.\<close>

definition GameToken_constructor :: "address \<Rightarrow> GameToken" where
  "GameToken_constructor deployer =
     \<lparr>balances = (\<lambda>_. 0), allowances = (\<lambda>_ _. 0), totalSupply = 0, paused = False,
      admin_role = (\<lambda>a. a = deployer), minter_role = (\<lambda>a. a = deployer)\<rparr>"

section \<open>PlayGame (contracts/PlayGame.sol)\<close>

abbreviation CREATED :: uint8 where "CREATED \<equiv> 0"
abbreviation STAKED :: uint8 where "STAKED \<equiv> 1"
abbreviation SETTLED :: uint8 where "SETTLED \<equiv> 2"
abbreviation REFUNDED :: uint8 where "REFUNDED \<equiv> 3"

record Match =
  id_m :: bytes32
  p1_m :: address
  p2_m :: address
  stake_m :: uint256
  status_m :: uint8
  p1Staked_m :: bool
  p2Staked_m :: bool
  startTime_m :: uint256

datatype Event =
    MatchCreated bytes32 address address uint256
  | Staked bytes32 address uint256
  | Settled bytes32 address uint256
  | Refunded bytes32 address uint256

text \<open>
  The state of the system: the storage of the PlayGame contract (\<open>matches\<close>, the owner of
  \<open>Ownable\<close>), its immutables (\<open>operator\<close>, \<open>timeout\<close>), its own address
  (\<open>address(this)\<close>, here \<open>self\<close>), the events it has emitted, and the storage of the
  token contract its immutable \<open>gameToken\<close> points to. A \<open>mapping\<close> is a total function
  whose unwritten entries are all zero. \<open>nonReentrant\<close> is not modelled: the token makes no
  call back into PlayGame, so the guard is never entered twice.
\<close>

record PlayGame =
  gameToken :: GameToken
  operator :: address
  timeout :: uint256
  owner :: address
  self :: address
  matches :: "bytes32 \<Rightarrow> Match"
  events :: "Event list"

definition zero_Match :: Match where
  "zero_Match = \<lparr>id_m = 0, p1_m = 0, p2_m = 0, stake_m = 0, status_m = 0,
                 p1Staked_m = False, p2Staked_m = False, startTime_m = 0\<rparr>"

definition constructor :: "address \<Rightarrow> address \<Rightarrow> GameToken \<Rightarrow> address \<Rightarrow> uint256 \<Rightarrow> PlayGame" where
  "constructor deployer this token op tmo =
     \<lparr>gameToken = token, operator = op, timeout = tmo, owner = deployer, self = this,
      matches = (\<lambda>_. zero_Match), events = []\<rparr>"

definition createMatch_body ::
  "address \<Rightarrow> bytes32 \<Rightarrow> address \<Rightarrow> address \<Rightarrow> uint256 \<Rightarrow> PlayGame \<Rightarrow> error option \<times> PlayGame" where
  "createMatch_body sender matchId p1 p2 stk g =
     (if owner g \<noteq> sender then (Some (Revert ''Ownable: caller is not the owner''), g)
      else if \<not> matchId \<noteq> 0 then (Some (Revert ''Invalid match ID''), g)
      else if \<not> (p1 \<noteq> 0 \<and> p2 \<noteq> 0) then (Some (Revert ''Invalid player addresses''), g)
      else if \<not> p1 \<noteq> p2 then (Some (Revert ''Players must be different''), g)
      else if \<not> stk > 0 then (Some (Revert ''Stake must be greater than 0''), g)
      else if \<not> id_m (matches g matchId) = 0 then (Some (Revert ''Match already exists''), g)
      else (None,
            g\<lparr>matches := (matches g)(matchId :=
                 \<lparr>id_m = matchId, p1_m = p1, p2_m = p2, stake_m = stk, status_m = CREATED,
                  p1Staked_m = False, p2Staked_m = False, startTime_m = 0\<rparr>),
              events := events g @ [MatchCreated matchId p1 p2 stk]\<rparr>))"

definition createMatch ::
  "address \<Rightarrow> bytes32 \<Rightarrow> address \<Rightarrow> address \<Rightarrow> uint256 \<Rightarrow> PlayGame \<Rightarrow> error + PlayGame" where
  "createMatch sender matchId p1 p2 stk = transact (createMatch_body sender matchId p1 p2 stk)"

text \<open>
  \<open>stake\<close>: the flag, the status and the start time are written to storage before the
  token is called. \<open>now\<close> is \<open>block.timestamp\<close>.
\<close>

definition stake_body :: "address \<Rightarrow> uint256 \<Rightarrow> bytes32 \<Rightarrow> PlayGame \<Rightarrow> error option \<times> PlayGame" where
  "stake_body sender now matchId g =
     (let matchData = matches g matchId in
      if \<not> id_m matchData \<noteq> 0 then (Some (Revert ''Match does not exist''), g)
      else if \<not> status_m matchData = CREATED then (Some (Revert ''Match not in created status''), g)
      else if \<not> (sender = p1_m matchData \<or> sender = p2_m matchData)
        then (Some (Revert ''Not a player in this match''), g)
      else
        let isP1 = (sender = p1_m matchData) in
        if (if isP1 then p1Staked_m matchData else p2Staked_m matchData)
          then (Some (Revert ''Already staked''), g)
        else
          let m1 = (if isP1 then matchData\<lparr>p1Staked_m := True\<rparr>
                    else matchData\<lparr>p2Staked_m := True\<rparr>);
              m2 = (if p1Staked_m m1 \<and> p2Staked_m m1
                    then m1\<lparr>status_m := STAKED, startTime_m := now\<rparr> else m1);
              g2 = g\<lparr>matches := (matches g)(matchId := m2)\<rparr>
          in case gt_transferFrom (self g2) sender (self g2) (stake_m m2) (gameToken g2) of
               Inl e \<Rightarrow> (Some e, g2)
             | Inr t \<Rightarrow> (None, g2\<lparr>gameToken := t,
                                 events := events g2 @ [Staked matchId sender (stake_m m2)]\<rparr>))"

definition stake :: "address \<Rightarrow> uint256 \<Rightarrow> bytes32 \<Rightarrow> PlayGame \<Rightarrow> error + PlayGame" where
  "stake sender now matchId = transact (stake_body sender now matchId)"

definition commitResult_body :: "address \<Rightarrow> bytes32 \<Rightarrow> address \<Rightarrow> PlayGame \<Rightarrow> error option \<times> PlayGame" where
  "commitResult_body sender matchId winner g =
     (if \<not> sender = operator g then (Some (Revert ''Only operator can commit results''), g)
      else
        let matchData = matches g matchId in
        if \<not> id_m matchData \<noteq> 0 then (Some (Revert ''Match does not exist''), g)
        else if \<not> status_m matchData = STAKED then (Some (Revert ''Match not staked''), g)
        else if \<not> (winner = p1_m matchData \<or> winner = p2_m matchData)
          then (Some (Revert ''Winner must be a player''), g)
        else
          let g1 = g\<lparr>matches := (matches g)(matchId := matchData\<lparr>status_m := SETTLED\<rparr>)\<rparr>
          in case checked_mul (stake_m matchData) 2 of
               Inl e \<Rightarrow> (Some e, g1)
             | Inr payout \<Rightarrow>
                 (case gt_transfer (self g1) winner payout (gameToken g1) of
                    Inl e \<Rightarrow> (Some e, g1)
                  | Inr t \<Rightarrow> (None, g1\<lparr>gameToken := t,
                                      events := events g1 @ [Settled matchId winner payout]\<rparr>)))"

definition commitResult :: "address \<Rightarrow> bytes32 \<Rightarrow> address \<Rightarrow> PlayGame \<Rightarrow> error + PlayGame" where
  "commitResult sender matchId winner = transact (commitResult_body sender matchId winner)"

text \<open>
  \<open>refund\<close> pays the two players one after the other; \<open>refund_player\<close> is one of the two
  \<open>if (matchData.pXStaked) { require(transfer); emit Refunded }\<close> blocks.
\<close>

definition refund_player :: "bytes32 \<Rightarrow> bool \<Rightarrow> address \<Rightarrow> uint256 \<Rightarrow> PlayGame \<Rightarrow> error option \<times> PlayGame" where
  "refund_player matchId staked player amount g =
     (if staked then
        case gt_transfer (self g) player amount (gameToken g) of
          Inl e \<Rightarrow> (Some e, g)
        | Inr t \<Rightarrow> (None, g\<lparr>gameToken := t, events := events g @ [Refunded matchId player amount]\<rparr>)
      else (None, g))"

text \<open>The three \<open>require\<close>s of \<open>refund\<close>: the first that fails, if any.\<close>

definition refund_requires :: "uint256 \<Rightarrow> bytes32 \<Rightarrow> PlayGame \<Rightarrow> error option" where
  "refund_requires now matchId g =
     (let matchData = matches g matchId in
      if \<not> id_m matchData \<noteq> 0 then Some (Revert ''Match does not exist'')
      else if \<not> status_m matchData = STAKED then Some (Revert ''Match not staked'')
      else case checked_add (startTime_m matchData) (timeout g) of
             Inl e \<Rightarrow> Some e
           | Inr deadline \<Rightarrow>
               if \<not> now \<ge> deadline then Some (Revert ''Timeout not reached'') else None)"

definition refund_body :: "uint256 \<Rightarrow> bytes32 \<Rightarrow> PlayGame \<Rightarrow> error option \<times> PlayGame" where
  "refund_body now matchId g =
     (case refund_requires now matchId g of
        Some e \<Rightarrow> (Some e, g)
      | None \<Rightarrow>
          let m1 = (matches g matchId)\<lparr>status_m := REFUNDED\<rparr>;
              g1 = g\<lparr>matches := (matches g)(matchId := m1)\<rparr>
          in (case refund_player matchId (p1Staked_m m1) (p1_m m1) (stake_m m1) g1 of
                (Some e, g2) \<Rightarrow> (Some e, g2)
              | (None, g2) \<Rightarrow>
                  refund_player matchId (p2Staked_m m1) (p2_m m1) (stake_m m1) g2))"

definition refund :: "uint256 \<Rightarrow> bytes32 \<Rightarrow> PlayGame \<Rightarrow> error + PlayGame" where
  "refund now matchId = transact (refund_body now matchId)"

text \<open>The two external functions PlayGame inherits from \<open>Ownable\<close>.\<close>

definition transferOwnership :: "address \<Rightarrow> address \<Rightarrow> PlayGame \<Rightarrow> error + PlayGame" where
  "transferOwnership sender newOwner g =
     (if owner g \<noteq> sender then Inl (Revert ''Ownable: caller is not the owner'')
      else if \<not> newOwner \<noteq> 0 then Inl (Revert ''Ownable: new owner is the zero address'')
      else Inr (g\<lparr>owner := newOwner\<rparr>))"

definition renounceOwnership :: "address \<Rightarrow> PlayGame \<Rightarrow> error + PlayGame" where
  "renounceOwnership sender g =
     (if owner g \<noteq> sender then Inl (Revert ''Ownable: caller is not the owner'')
      else Inr (g\<lparr>owner := 0\<rparr>))"

definition getMatch :: "bytes32 \<Rightarrow> PlayGame \<Rightarrow> Match" where
  "getMatch matchId g = matches g matchId"

text \<open>\<open>&&\<close> evaluates its right operand only when the left one is true.\<close>

definition canRefund :: "uint256 \<Rightarrow> bytes32 \<Rightarrow> PlayGame \<Rightarrow> error + bool" where
  "canRefund now matchId g =
     (let matchData = matches g matchId in
      if \<not> id_m matchData \<noteq> 0 then Inr False
      else if \<not> status_m matchData = STAKED then Inr False
      else case checked_add (startTime_m matchData) (timeout g) of
             Inl e \<Rightarrow> Inl e
           | Inr deadline \<Rightarrow> Inr (now \<ge> deadline))"

definition getGTBalance :: "PlayGame \<Rightarrow> uint256" where
  "getGTBalance g = balances (gameToken g) (self g)"

section \<open>Transactions\<close>

text \<open>
  A transaction is a call of one external function by \<open>msg.sender\<close> in a block with a
  timestamp. A call that fails leaves the state as it was. \<open>run\<close> executes a list of
  transactions from left to right; the states it produces from \<open>constructor\<close> are the
  states the system can be observed in.
\<close>

datatype token_call =
    Mint address uint256
  | GrantMinterRole address
  | Pause
  | Unpause
  | Transfer address uint256
  | TransferFrom address address uint256
  | Approve address uint256

datatype call =
    CreateMatch bytes32 address address uint256
  | Stake bytes32
  | CommitResult bytes32 address
  | Refund bytes32
  | TransferOwnership address
  | RenounceOwnership
  | Token token_call

datatype tx = Tx address uint256 call

fun timestamp :: "tx \<Rightarrow> uint256" where
  "timestamp (Tx sender now c) = now"

fun token_exec :: "address \<Rightarrow> token_call \<Rightarrow> GameToken \<Rightarrow> error + GameToken" where
  "token_exec sender (Mint to amount) t = gt_mint sender to amount t"
| "token_exec sender (GrantMinterRole a) t = gt_grantMinterRole sender a t"
| "token_exec sender Pause t = gt_pause sender t"
| "token_exec sender Unpause t = gt_unpause sender t"
| "token_exec sender (Transfer to amount) t = gt_transfer sender to amount t"
| "token_exec sender (TransferFrom from to amount) t = gt_transferFrom sender from to amount t"
| "token_exec sender (Approve spender amount) t = gt_approve sender spender amount t"

fun exec :: "address \<Rightarrow> uint256 \<Rightarrow> call \<Rightarrow> PlayGame \<Rightarrow> error + PlayGame" where
  "exec sender now (CreateMatch matchId p1 p2 stk) g = createMatch sender matchId p1 p2 stk g"
| "exec sender now (Stake matchId) g = stake sender now matchId g"
| "exec sender now (CommitResult matchId winner) g = commitResult sender matchId winner g"
| "exec sender now (Refund matchId) g = refund now matchId g"
| "exec sender now (TransferOwnership newOwner) g = transferOwnership sender newOwner g"
| "exec sender now RenounceOwnership g = renounceOwnership sender g"
| "exec sender now (Token c) g =
     (case token_exec sender c (gameToken g) of
        Inl e \<Rightarrow> Inl e
      | Inr t \<Rightarrow> Inr (g\<lparr>gameToken := t\<rparr>))"

fun step :: "PlayGame \<Rightarrow> tx \<Rightarrow> PlayGame" where
  "step g (Tx sender now c) = (case exec sender now c g of Inl e \<Rightarrow> g | Inr g' \<Rightarrow> g')"

definition run :: "PlayGame \<Rightarrow> tx list \<Rightarrow> PlayGame" where
  "run g txs = foldl step g txs"

section \<open>Escrow accounting\<close>

text \<open>
  PlayGame keeps one pooled token balance and no per-match balance. Every token transfer
  it makes is paired, in the same call, with an event that names the match and the amount:
  \<open>Staked\<close> with the \<open>transferFrom\<close> into the contract, \<open>Settled\<close> and \<open>Refunded\<close> with
  a \<open>transfer\<close> out of it. The escrow held for a match is what its events leave in the
  contract: the amounts staked minus the amounts paid out. The theorems on staking tie
  it to the token: each event comes with its transfer, and the balance that
  \<open>getGTBalance\<close> reads is made up of the escrows of all matches and of what was sent to
  the contract directly.
\<close>

fun flow :: "bytes32 \<Rightarrow> Event \<Rightarrow> int" where
  "flow k (MatchCreated j a b s) = 0"
| "flow k (Staked j p s) = (if j = k then uint s else 0)"
| "flow k (Settled j w s) = (if j = k then - uint s else 0)"
| "flow k (Refunded j p s) = (if j = k then - uint s else 0)"

definition custody :: "bytes32 \<Rightarrow> PlayGame \<Rightarrow> int" where
  "custody k g = sum_list (map (flow k) (events g))"

definition stakedCount :: "Match \<Rightarrow> int" where
  "stakedCount m = (if p1Staked_m m then 1 else 0) + (if p2Staked_m m then 1 else 0)"

text \<open>The allowed moves of a match status, one call at a time.\<close>

definition status_move :: "uint8 \<Rightarrow> uint8 \<Rightarrow> bool" where
  "status_move a b =
     (a = b \<or> (a = CREATED \<and> b = STAKED) \<or> (a = STAKED \<and> b = SETTLED) \<or> (a = STAKED \<and> b = REFUNDED))"

text \<open>
  What holds of every match in every state that can be observed: an entry that was never
  written is all zero; a written entry keeps the key and the checks of \<open>createMatch\<close>; the
  status is \<open>CREATED\<close> exactly as long as a flag is missing; and the escrow is the stakes
  of the flagged players until the match is settled or refunded, and nothing afterwards.
\<close>

definition match_ok :: "bytes32 \<Rightarrow> Match \<Rightarrow> bool" where
  "match_ok k m =
     (if id_m m = 0 then m = zero_Match
      else id_m m = k \<and> p1_m m \<noteq> 0 \<and> p2_m m \<noteq> 0 \<and> p1_m m \<noteq> p2_m m \<and> stake_m m \<noteq> 0 \<and>
           (if status_m m = CREATED then startTime_m m = 0 \<and> \<not> (p1Staked_m m \<and> p2Staked_m m)
            else (status_m m = STAKED \<or> status_m m = SETTLED \<or> status_m m = REFUNDED) \<and>
                 p1Staked_m m \<and> p2Staked_m m))"

definition held :: "Match \<Rightarrow> int" where
  "held m = (if status_m m = CREATED \<or> status_m m = STAKED
             then uint (stake_m m) * stakedCount m else 0)"

definition inv :: "PlayGame \<Rightarrow> bool" where
  "inv g = (\<forall>k. match_ok k (matches g k) \<and> custody k g = held (matches g k))"

text \<open>The moves of a status over any number of calls.\<close>

definition status_reach :: "uint8 \<Rightarrow> uint8 \<Rightarrow> bool" where
  "status_reach a b =
     (a = b \<or> (a = CREATED \<and> (b = STAKED \<or> b = SETTLED \<or> b = REFUNDED)) \<or>
      (a = STAKED \<and> (b = SETTLED \<or> b = REFUNDED)))"

text \<open>Every match that has left \<open>CREATED\<close> has a start time.\<close>

definition started :: "PlayGame \<Rightarrow> bool" where
  "started g = (\<forall>k. status_m (matches g k) \<noteq> CREATED \<longrightarrow> startTime_m (matches g k) \<noteq> 0)"

text \<open>
  The parts of \<open>stake\<close> and \<open>refund\<close>, named: who passes the checks of \<open>stake\<close>, the
  record \<open>stake\<close> then writes, the token calls and the events of \<open>refund\<close>.
\<close>

definition may_stake :: "address \<Rightarrow> Match \<Rightarrow> bool" where
  "may_stake sender m =
     (id_m m \<noteq> 0 \<and> status_m m = CREATED \<and> (sender = p1_m m \<or> sender = p2_m m) \<and>
      \<not> (if sender = p1_m m then p1Staked_m m else p2Staked_m m))"

definition staked_match :: "address \<Rightarrow> uint256 \<Rightarrow> Match \<Rightarrow> Match" where
  "staked_match sender now m =
     (let m1 = (if sender = p1_m m then m\<lparr>p1Staked_m := True\<rparr> else m\<lparr>p2Staked_m := True\<rparr>)
      in if p1Staked_m m1 \<and> p2Staked_m m1 then m1\<lparr>status_m := STAKED, startTime_m := now\<rparr> else m1)"

definition refund_pay :: "address \<Rightarrow> bool \<Rightarrow> address \<Rightarrow> uint256 \<Rightarrow> GameToken \<Rightarrow> error + GameToken" where
  "refund_pay this staked player amount t =
     (if staked then gt_transfer this player amount t else Inr t)"

definition refund_events :: "bytes32 \<Rightarrow> Match \<Rightarrow> Event list" where
  "refund_events k m =
     (if p1Staked_m m then [Refunded k (p1_m m) (stake_m m)] else []) @
     (if p2Staked_m m then [Refunded k (p2_m m) (stake_m m)] else [])"

text \<open>
  \<open>created_in g txs k\<close>: running \<open>txs\<close> from \<open>g\<close>, some \<open>createMatch\<close> call for the id
  \<open>k\<close> succeeds.
\<close>

fun creates :: "PlayGame \<Rightarrow> tx \<Rightarrow> bytes32 \<Rightarrow> bool" where
  "creates g (Tx sender now (CreateMatch matchId p1 p2 stk)) k =
     (matchId = k \<and> (case createMatch sender matchId p1 p2 stk g of Inl e \<Rightarrow> False | Inr g' \<Rightarrow> True))"
| "creates g (Tx sender now c) k = False"

fun created_in :: "PlayGame \<Rightarrow> tx list \<Rightarrow> bytes32 \<Rightarrow> bool" where
  "created_in g [] k = False"
| "created_in g (tx # txs) k = (creates g tx k \<or> created_in (step g tx) txs k)"

text \<open>
  The pooled balance. \<open>getGTBalance\<close> reads the one token balance the contract keeps
  for all matches. Three things move it: the \<open>transferFrom\<close> of a \<open>stake\<close>, the
  \<open>transfer\<close> of a \<open>commitResult\<close> or \<open>refund\<close>, and a token call by a third party that
  names the contract as recipient. \<open>credit this c\<close> is what a successful token call \<open>c\<close>
  of an account other than \<open>this\<close> adds to the balance of \<open>this\<close>, and \<open>gifts g txs\<close>
  is the sum of it over the run of \<open>txs\<close> from \<open>g\<close>.
\<close>

fun tx_sender :: "tx \<Rightarrow> address" where
  "tx_sender (Tx sender now c) = sender"

fun credit :: "address \<Rightarrow> token_call \<Rightarrow> int" where
  "credit this (Mint to amount) = (if to = this then uint amount else 0)"
| "credit this (Transfer to amount) = (if to = this then uint amount else 0)"
| "credit this (TransferFrom from to amount) = (if to = this then uint amount else 0)"
| "credit this (GrantMinterRole a) = 0"
| "credit this Pause = 0"
| "credit this Unpause = 0"
| "credit this (Approve spender amount) = 0"

fun gift :: "PlayGame \<Rightarrow> tx \<Rightarrow> int" where
  "gift g (Tx sender now (Token c)) =
     (case token_exec sender c (gameToken g) of Inl e \<Rightarrow> 0 | Inr t \<Rightarrow> credit (self g) c)"
| "gift g (Tx sender now c) = 0"

fun gifts :: "PlayGame \<Rightarrow> tx list \<Rightarrow> int" where
  "gifts g [] = 0"
| "gifts g (tx # txs) = gift g tx + gifts (step g tx) txs"

text \<open>
  A token whose books are in order, seen from the address \<open>this\<close>: the balances add up
  to the total supply, and \<open>this\<close> has approved nobody to spend its tokens. A freshly
  deployed token is one, and PlayGame never calls \<open>approve\<close>.
\<close>

definition supply_ok :: "GameToken \<Rightarrow> bool" where
  "supply_ok t = ((\<Sum>a\<in>UNIV. unat (balances t a)) = unat (totalSupply t))"

definition sound_token :: "address \<Rightarrow> GameToken \<Rightarrow> bool" where
  "sound_token this t = (supply_ok t \<and> (\<forall>x. allowances t this x = 0))"

text \<open>
  What the events of all matches together leave in the contract, and the two facts that
  tie it to the token: a player whose flag is set is not the contract itself, and the
  contract's balance is \<open>b\<close> more than what the events leave.
\<close>

fun pays :: "Event \<Rightarrow> int" where
  "pays (MatchCreated j a b s) = 0"
| "pays (Staked j p s) = uint s"
| "pays (Settled j w s) = - uint s"
| "pays (Refunded j p s) = - uint s"

definition escrow_total :: "PlayGame \<Rightarrow> int" where
  "escrow_total g = sum_list (map pays (events g))"

definition outsiders :: "PlayGame \<Rightarrow> bool" where
  "outsiders g =
     (\<forall>k. (p1Staked_m (matches g k) \<longrightarrow> p1_m (matches g k) \<noteq> self g) \<and>
          (p2Staked_m (matches g k) \<longrightarrow> p2_m (matches g k) \<noteq> self g))"

definition books :: "int \<Rightarrow> PlayGame \<Rightarrow> bool" where
  "books b g =
     (sound_token (self g) (gameToken g) \<and> outsiders g \<and>
      uint (balances (gameToken g) (self g)) = b + escrow_total g)"

text \<open>
  The token lets the contract pay \<open>n\<close>: it is not paused, the contract's address is not
  the zero address, and the contract holds at least \<open>n\<close>.
\<close>

definition can_pay :: "PlayGame \<Rightarrow> nat \<Rightarrow> bool" where
  "can_pay g n = (\<not> paused (gameToken g) \<and> self g \<noteq> 0 \<and> n \<le> unat (balances (gameToken g) (self g)))"

text \<open>The two token calls of \<open>refund\<close>, one after the other.\<close>

definition refund_payments :: "bytes32 \<Rightarrow> PlayGame \<Rightarrow> error + GameToken" where
  "refund_payments k g =
     (let m = matches g k in
      case refund_pay (self g) (p1Staked_m m) (p1_m m) (stake_m m) (gameToken g) of
        Inl e \<Rightarrow> Inl e
      | Inr t1 \<Rightarrow> refund_pay (self g) (p2Staked_m m) (p2_m m) (stake_m m) t1)"

section \<open>Leaderboard indexer (tools/leaderboard.js)\<close>

text \<open>
  The indexer keeps two SQLite tables. A table is the list of its rows in the order the
  engine scans them; \<open>last_updated\<close> and \<open>timestamp\<close>, which read the wall clock, are left
  out. \<open>wins\<close> and \<open>matches_played\<close> are INTEGER columns, counted up by one per event.
  \<open>total_gt_won\<close> and \<open>amount\<close> are TEXT columns and hold the text that was written to
  them.

  The two statements leave two computations to SQLite, whose code is not part of the
  repository. They are parameters of the model, and every theorem holds whatever they
  compute:
  \<^item> \<open>cast_add a b\<close> is the text of
    \<open>CAST(CAST(a AS DECIMAL) + CAST(b AS DECIMAL) AS TEXT)\<close>;
  \<^item> \<open>cast_decimal a\<close> is the number \<open>CAST(a AS DECIMAL)\<close> that \<open>ORDER BY\<close> compares.
\<close>

record player_row =
  address_p :: string
  wins_p :: int
  total_gt_won_p :: string
  matches_played_p :: int

record event_row =
  event_type_e :: string
  address_e :: string
  amount_e :: string
  match_id_e :: string
  block_number_e :: int
  transaction_hash_e :: string

record Database =
  players_tbl :: "player_row list"
  events_tbl :: "event_row list"

text \<open>
  JavaScript's \<open>toLowerCase\<close> on the ASCII text of an address, and \<open>toString\<close> on a
  BigInt that is not negative: its decimal numeral.
\<close>

definition toLowerCase :: "string \<Rightarrow> string" where
  "toLowerCase s =
     map (\<lambda>c. let n = (of_char c :: nat) in if 65 \<le> n \<and> n \<le> 90 then char_of (n + 32) else c) s"

fun toString :: "nat \<Rightarrow> string" where
  "toString n =
     (if n < 10 then [char_of (48 + n)]
      else toString (n div 10) @ [char_of (48 + n mod 10)])"

declare toString.simps [simp del]

definition logEvent :: "string \<Rightarrow> string \<Rightarrow> string \<Rightarrow> string \<Rightarrow> int \<Rightarrow> string \<Rightarrow> Database \<Rightarrow> Database" where
  "logEvent eventType addr amount matchId blockNumber transactionHash db =
     db\<lparr>events_tbl := events_tbl db @
          [\<lparr>event_type_e = eventType, address_e = addr, amount_e = amount, match_id_e = matchId,
            block_number_e = blockNumber, transaction_hash_e = transactionHash\<rparr>]\<rparr>"

text \<open>
  \<open>INSERT ... ON CONFLICT(address) DO UPDATE\<close>: a new row with the four values when no
  row has the address, otherwise the three additions on the row that has it.
\<close>

definition add_stats :: "(string \<Rightarrow> string \<Rightarrow> string) \<Rightarrow> int \<Rightarrow> string \<Rightarrow> int \<Rightarrow> player_row \<Rightarrow> player_row" where
  "add_stats cast_add winsToAdd gtWonToAdd matchesToAdd r =
     r\<lparr>wins_p := wins_p r + winsToAdd,
       total_gt_won_p := cast_add (total_gt_won_p r) gtWonToAdd,
       matches_played_p := matches_played_p r + matchesToAdd\<rparr>"

definition updatePlayerStats ::
  "(string \<Rightarrow> string \<Rightarrow> string) \<Rightarrow> string \<Rightarrow> int \<Rightarrow> string \<Rightarrow> int \<Rightarrow> Database \<Rightarrow> Database" where
  "updatePlayerStats cast_add addr winsToAdd gtWonToAdd matchesToAdd db =
     (case find (\<lambda>r. address_p r = addr) (players_tbl db) of
        None \<Rightarrow> db\<lparr>players_tbl := players_tbl db @
                 [\<lparr>address_p = addr, wins_p = winsToAdd, total_gt_won_p = gtWonToAdd,
                   matches_played_p = matchesToAdd\<rparr>]\<rparr>
      | Some _ \<Rightarrow> db\<lparr>players_tbl :=
                 map (\<lambda>r. if address_p r = addr
                          then add_stats cast_add winsToAdd gtWonToAdd matchesToAdd r else r)
                   (players_tbl db)\<rparr>)"

text \<open>
  \<open>handleSettledEvent(matchId, winner, amount, event)\<close>: \<open>amount\<close> is a BigInt, written
  to both tables as \<open>amount.toString()\<close>.
\<close>

definition handleSettledEvent ::
  "(string \<Rightarrow> string \<Rightarrow> string) \<Rightarrow> string \<Rightarrow> string \<Rightarrow> nat \<Rightarrow> int \<Rightarrow> string \<Rightarrow> Database \<Rightarrow> Database" where
  "handleSettledEvent cast_add matchId winner amount blockNumber transactionHash db =
     (let addr = toLowerCase winner;
          db1 = logEvent ''Settled'' addr (toString amount) matchId blockNumber transactionHash db
      in updatePlayerStats cast_add addr 1 (toString amount) 1 db1)"

text \<open>
  \<open>ORDER BY CAST(total_gt_won AS DECIMAL) DESC, wins DESC LIMIT ?\<close>. SQL leaves the order
  of rows that tie on every term to the engine: they stay in the order of the scan.
  A negative \<open>LIMIT\<close> is no limit.
\<close>

definition rank_key :: "(string \<Rightarrow> real) \<Rightarrow> player_row \<Rightarrow> real \<times> int" where
  "rank_key cast_decimal r = (- cast_decimal (total_gt_won_p r), - wins_p r)"

definition sql_limit :: "int \<Rightarrow> 'a list \<Rightarrow> 'a list" where
  "sql_limit n xs = (if n < 0 then xs else take (nat n) xs)"

definition getLeaderboard :: "(string \<Rightarrow> real) \<Rightarrow> int \<Rightarrow> Database \<Rightarrow> player_row list" where
  "getLeaderboard cast_decimal limit db =
     sql_limit limit (sort_key (rank_key cast_decimal) (players_tbl db))"

definition getPlayerStats :: "string \<Rightarrow> Database \<Rightarrow> player_row option" where
  "getPlayerStats addr db = find (\<lambda>r. address_p r = toLowerCase addr) (players_tbl db)"

text \<open>
  The order the query asks for: a higher total first, as the engine reads the totals, and
  among equal totals more wins first.
\<close>

definition ranks_before :: "(string \<Rightarrow> real) \<Rightarrow> player_row \<Rightarrow> player_row \<Rightarrow> bool" where
  "ranks_before cast_decimal a b =
     (cast_decimal (total_gt_won_p a) > cast_decimal (total_gt_won_p b) \<or>
      (cast_decimal (total_gt_won_p a) = cast_decimal (total_gt_won_p b) \<and> wins_p a \<ge> wins_p b))"

section \<open>A deployment to compute with\<close>

text \<open>
  Account 1 deploys the token and the game, account 2 is the operator, accounts 3 and 4
  are the players, the game lives at address 9 and the timeout is one day. The players
  are given 1000 tokens each and approve the game for one stake of 100.
\<close>

definition demo_game :: PlayGame where
  "demo_game = constructor 1 9 (GameToken_constructor 1) 2 86400"

definition demo_setup :: "tx list" where
  "demo_setup =
     [Tx 1 1000 (Token (Mint 3 1000)), Tx 1 1000 (Token (Mint 4 1000)),
      Tx 3 1001 (Token (Approve 9 100)), Tx 4 1002 (Token (Approve 9 100)),
      Tx 1 1003 (CreateMatch 7 3 4 100)]"

definition demo_staked :: "tx list" where
  "demo_staked = demo_setup @ [Tx 3 2000 (Stake 7), Tx 4 3000 (Stake 7)]"

definition demo_settled :: "tx list" where
  "demo_settled = demo_staked @ [Tx 2 4000 (CommitResult 7 3)]"

text \<open>
  Three more runs: the token is paused after both players have staked; only the first
  player has staked; the first player has tokens but has not approved the game.
\<close>

definition demo_paused :: "tx list" where
  "demo_paused = demo_staked @ [Tx 1 3500 (Token Pause)]"

definition demo_one_sided :: "tx list" where
  "demo_one_sided = demo_setup @ [Tx 3 2000 (Stake 7)]"

definition demo_unapproved :: "tx list" where
  "demo_unapproved = [Tx 1 1000 (Token (Mint 3 1000)), Tx 1 1003 (CreateMatch 7 3 4 100)]"

text \<open>
  An engine to compute examples with: the integer a decimal numeral denotes, and the
  two computations done exactly on such integers. SQLite computes the same as long as
  the numbers and their sum fit its 64-bit integers, which the numbers of the examples
  do. No theorem about all inputs refers to it.
\<close>

definition text_value :: "string \<Rightarrow> int" where
  "text_value s = foldl (\<lambda>n c. 10 * n + (of_char c - 48)) 0 s"

definition exact_add :: "string \<Rightarrow> string \<Rightarrow> string" where
  "exact_add a b = toString (nat (text_value a + text_value b))"

definition exact_decimal :: "string \<Rightarrow> real" where
  "exact_decimal a = of_int (text_value a)"

text \<open>
  An empty database and two \<open>Settled\<close> events of 200 for two winners who have nothing
  else, delivered in either order.
\<close>

definition empty_db :: Database where
  "empty_db = \<lparr>players_tbl = [], events_tbl = []\<rparr>"

definition settled_aa :: "Database \<Rightarrow> Database" where
  "settled_aa = handleSettledEvent exact_add ''0x01'' ''0xAA'' 200 12 ''0xf1''"

definition settled_bb :: "Database \<Rightarrow> Database" where
  "settled_bb = handleSettledEvent exact_add ''0x02'' ''0xBB'' 200 13 ''0xf2''"

definition row_aa :: player_row where
  "row_aa = \<lparr>address_p = ''0xaa'', wins_p = 1, total_gt_won_p = ''200'', matches_played_p = 1\<rparr>"

definition row_bb :: player_row where
  "row_bb = \<lparr>address_p = ''0xbb'', wins_p = 1, total_gt_won_p = ''200'', matches_played_p = 1\<rparr>"

definition row_cc :: player_row where
  "row_cc = \<lparr>address_p = ''0xcc'', wins_p = 3, total_gt_won_p = ''500'', matches_played_p = 4\<rparr>"

text \<open>A table of three players, two of them tied, scanned with \<open>0xbb\<close> first.\<close>

definition demo_players :: Database where
  "demo_players = \<lparr>players_tbl = [row_bb, row_cc, row_aa], events_tbl = []\<rparr>"

section \<open>What a call has done when it returns\<close>

lemma transact_Inr: "transact body s = Inr s' \<longleftrightarrow> body s = (None, s')"
  by (auto simp: transact_def split: prod.splits option.splits)

lemma createMatch_Inr:
  "createMatch sender k p1 p2 stk g = Inr g' \<longleftrightarrow>
     owner g = sender \<and> k \<noteq> 0 \<and> p1 \<noteq> 0 \<and> p2 \<noteq> 0 \<and> p1 \<noteq> p2 \<and> stk \<noteq> 0 \<and>
     id_m (matches g k) = 0 \<and>
     g' = g\<lparr>matches := (matches g)(k :=
              \<lparr>id_m = k, p1_m = p1, p2_m = p2, stake_m = stk, status_m = CREATED,
               p1Staked_m = False, p2Staked_m = False, startTime_m = 0\<rparr>),
            events := events g @ [MatchCreated k p1 p2 stk]\<rparr>"
  by (auto simp: createMatch_def transact_Inr createMatch_body_def word_gt_0)

lemma stake_body_eq:
  "stake_body sender now k g =
     (let m = matches g k in
      if \<not> id_m m \<noteq> 0 then (Some (Revert ''Match does not exist''), g)
      else if \<not> status_m m = CREATED then (Some (Revert ''Match not in created status''), g)
      else if \<not> (sender = p1_m m \<or> sender = p2_m m) then (Some (Revert ''Not a player in this match''), g)
      else if (if sender = p1_m m then p1Staked_m m else p2Staked_m m) then (Some (Revert ''Already staked''), g)
      else case gt_transferFrom (self g) sender (self g) (stake_m m) (gameToken g) of
             Inl e \<Rightarrow> (Some e, g\<lparr>matches := (matches g)(k := staked_match sender now m)\<rparr>)
           | Inr t \<Rightarrow> (None, g\<lparr>matches := (matches g)(k := staked_match sender now m),
                               gameToken := t,
                               events := events g @ [Staked k sender (stake_m m)]\<rparr>))"
  by (auto simp: stake_body_def staked_match_def Let_def split: sum.splits)

lemma stake_Inr:
  "stake sender now k g = Inr g' \<longleftrightarrow>
     may_stake sender (matches g k) \<and>
     (\<exists>t. gt_transferFrom (self g) sender (self g) (stake_m (matches g k)) (gameToken g) = Inr t \<and>
          g' = g\<lparr>matches := (matches g)(k := staked_match sender now (matches g k)),
                 gameToken := t,
                 events := events g @ [Staked k sender (stake_m (matches g k))]\<rparr>)"
  by (auto simp: stake_def transact_Inr stake_body_eq may_stake_def Let_def split: sum.splits)

lemma commitResult_Inr:
  "commitResult sender k winner g = Inr g' \<longleftrightarrow>
     sender = operator g \<and> id_m (matches g k) \<noteq> 0 \<and> status_m (matches g k) = STAKED \<and>
     (winner = p1_m (matches g k) \<or> winner = p2_m (matches g k)) \<and>
     unat (stake_m (matches g k)) * 2 < 2 ^ 256 \<and>
     (\<exists>t. gt_transfer (self g) winner (stake_m (matches g k) * 2) (gameToken g) = Inr t \<and>
          g' = g\<lparr>matches := (matches g)(k := (matches g k)\<lparr>status_m := SETTLED\<rparr>),
                 gameToken := t,
                 events := events g @ [Settled k winner (stake_m (matches g k) * 2)]\<rparr>)"
  by (auto simp: commitResult_def transact_Inr commitResult_body_def Let_def checked_mul_def
           split: sum.splits if_splits)

lemma refund_player_None:
  "refund_player k staked player amount g = (None, g') \<longleftrightarrow>
     (\<exists>t. refund_pay (self g) staked player amount (gameToken g) = Inr t \<and>
          g' = g\<lparr>gameToken := t,
                 events := events g @ (if staked then [Refunded k player amount] else [])\<rparr>)"
  by (auto simp: refund_player_def refund_pay_def split: sum.splits)

lemma refund_player_Some:
  "refund_player k staked player amount g = (Some e, g') \<longleftrightarrow>
     refund_pay (self g) staked player amount (gameToken g) = Inl e \<and> g' = g"
  by (auto simp: refund_player_def refund_pay_def split: sum.splits)

lemma refund_requires_None:
  "refund_requires now k g = None \<longleftrightarrow>
     id_m (matches g k) \<noteq> 0 \<and> status_m (matches g k) = STAKED \<and>
     unat (startTime_m (matches g k)) + unat (timeout g) < 2 ^ 256 \<and>
     startTime_m (matches g k) + timeout g \<le> now"
  by (auto simp: refund_requires_def Let_def checked_add_def split: sum.splits)

lemma refund_Inr:
  "refund now k g = Inr g' \<longleftrightarrow>
     refund_requires now k g = None \<and>
     (\<exists>t1 t2. refund_pay (self g) (p1Staked_m (matches g k)) (p1_m (matches g k))
                 (stake_m (matches g k)) (gameToken g) = Inr t1 \<and>
              refund_pay (self g) (p2Staked_m (matches g k)) (p2_m (matches g k))
                 (stake_m (matches g k)) t1 = Inr t2 \<and>
              g' = g\<lparr>matches := (matches g)(k := (matches g k)\<lparr>status_m := REFUNDED\<rparr>),
                     gameToken := t2,
                     events := events g @ refund_events k (matches g k)\<rparr>)"
  apply (simp add: refund_def transact_Inr refund_body_def Let_def refund_events_def
           split: sum.splits if_splits prod.splits option.splits)
  apply (auto simp: refund_player_None refund_player_Some)
  done

section \<open>The invariant\<close>

lemma held_zero_Match [simp]: "held zero_Match = 0"
  by (simp add: held_def zero_Match_def)

lemma inv_constructor: "inv (constructor deployer this token op tmo)"
  by (simp add: inv_def constructor_def match_ok_def custody_def zero_Match_def held_def)

lemma uint_double: "unat (s::uint256) * 2 < 2 ^ 256 \<Longrightarrow> uint (s * 2) = 2 * uint s"
proof -
  assume a: "unat s * 2 < 2 ^ 256"
  have "unat (s * 2) = unat s * 2"
    using a by (simp add: unat_word_ariths)
  then show ?thesis
    by (metis mult.commute of_nat_mult of_nat_numeral uint_nat)
qed

lemma inv_createMatch:
  assumes "inv g" and "createMatch sender k p1 p2 stk g = Inr g'"
  shows "inv g'"
proof -
  from assms(2) have c: "id_m (matches g k) = 0" "k \<noteq> 0" "p1 \<noteq> 0" "p2 \<noteq> 0" "p1 \<noteq> p2" "stk \<noteq> 0"
    and g': "g' = g\<lparr>matches := (matches g)(k :=
              \<lparr>id_m = k, p1_m = p1, p2_m = p2, stake_m = stk, status_m = CREATED,
               p1Staked_m = False, p2Staked_m = False, startTime_m = 0\<rparr>),
            events := events g @ [MatchCreated k p1 p2 stk]\<rparr>"
    by (simp_all add: createMatch_Inr)
  from assms(1) have ok: "match_ok k (matches g k)" and cu: "custody k g = held (matches g k)"
    by (simp_all add: inv_def)
  from ok c(1) have zm: "matches g k = zero_Match"
    by (simp add: match_ok_def)
  with cu have z: "custody k g = 0"
    by simp
  show ?thesis
    unfolding inv_def
  proof (intro allI)
    fix j
    show "match_ok j (matches g' j) \<and> custody j g' = held (matches g' j)"
    proof (cases "j = k")
      case True
      then show ?thesis
        using c(2-6) z by (simp add: g' match_ok_def held_def stakedCount_def custody_def)
    next
      case False
      then show ?thesis using assms(1) by (simp add: g' inv_def custody_def)
    qed
  qed
qed

lemma match_ok_staked:
  "match_ok k m \<Longrightarrow> may_stake sender m \<Longrightarrow> match_ok k (staked_match sender now m)"
  by (auto simp: match_ok_def may_stake_def staked_match_def Let_def split: if_splits)

lemma held_staked:
  "match_ok k m \<Longrightarrow> may_stake sender m \<Longrightarrow>
   held (staked_match sender now m) = held m + uint (stake_m m)"
  by (auto simp: match_ok_def may_stake_def staked_match_def Let_def held_def stakedCount_def
        algebra_simps split: if_splits)

lemma inv_stake:
  assumes "inv g" and "stake sender now k g = Inr g'"
  shows "inv g'"
proof -
  from assms(2) obtain t where ms: "may_stake sender (matches g k)"
    and g': "g' = g\<lparr>matches := (matches g)(k := staked_match sender now (matches g k)),
                 gameToken := t,
                 events := events g @ [Staked k sender (stake_m (matches g k))]\<rparr>"
    by (auto simp: stake_Inr)
  show ?thesis
    unfolding inv_def
  proof (intro allI)
    fix j
    show "match_ok j (matches g' j) \<and> custody j g' = held (matches g' j)"
    proof (cases "j = k")
      case True
      from assms(1) have ok: "match_ok k (matches g k)"
        and cu: "custody k g = held (matches g k)"
        by (simp_all add: inv_def)
      show ?thesis
        using True cu match_ok_staked [OF ok ms, of now] held_staked [OF ok ms, of now]
        by (simp add: g' custody_def)
    next
      case False
      then show ?thesis using assms(1) by (simp add: g' inv_def custody_def)
    qed
  qed
qed

lemma inv_commitResult:
  assumes "inv g" and "commitResult sender k winner g = Inr g'"
  shows "inv g'"
proof -
  from assms(2) obtain t where st: "id_m (matches g k) \<noteq> 0" "status_m (matches g k) = STAKED"
    and ov: "unat (stake_m (matches g k)) * 2 < 2 ^ 256"
    and g': "g' = g\<lparr>matches := (matches g)(k := (matches g k)\<lparr>status_m := SETTLED\<rparr>),
                 gameToken := t,
                 events := events g @ [Settled k winner (stake_m (matches g k) * 2)]\<rparr>"
    by (auto simp: commitResult_Inr)
  from assms(1) have ok: "match_ok k (matches g k)" and cu: "custody k g = held (matches g k)"
    by (simp_all add: inv_def)
  show ?thesis
    unfolding inv_def
  proof (intro allI)
    fix j
    show "match_ok j (matches g' j) \<and> custody j g' = held (matches g' j)"
    proof (cases "j = k")
      case True
      have "match_ok k ((matches g k)\<lparr>status_m := SETTLED\<rparr>)"
        using ok st by (auto simp: match_ok_def)
      moreover have "held (matches g k) = 2 * uint (stake_m (matches g k))"
        using ok st by (auto simp: match_ok_def held_def stakedCount_def)
      ultimately show ?thesis
        using True cu by (simp add: g' held_def uint_double [OF ov] custody_def)
    next
      case False
      then show ?thesis using assms(1) by (simp add: g' inv_def custody_def)
    qed
  qed
qed

lemma inv_refund:
  assumes "inv g" and "refund now k g = Inr g'"
  shows "inv g'"
proof -
  from assms(2) obtain t where st: "id_m (matches g k) \<noteq> 0" "status_m (matches g k) = STAKED"
    and g': "g' = g\<lparr>matches := (matches g)(k := (matches g k)\<lparr>status_m := REFUNDED\<rparr>),
                 gameToken := t,
                 events := events g @ refund_events k (matches g k)\<rparr>"
    by (auto simp: refund_Inr refund_requires_None)
  from assms(1) have ok: "match_ok k (matches g k)" and cu: "custody k g = held (matches g k)"
    by (simp_all add: inv_def)
  show ?thesis
    unfolding inv_def
  proof (intro allI)
    fix j
    show "match_ok j (matches g' j) \<and> custody j g' = held (matches g' j)"
    proof (cases "j = k")
      case True
      have "match_ok k ((matches g k)\<lparr>status_m := REFUNDED\<rparr>)"
        using ok st by (auto simp: match_ok_def)
      moreover have "held (matches g k) = 2 * uint (stake_m (matches g k))"
        and "p1Staked_m (matches g k)" and "p2Staked_m (matches g k)"
        using ok st by (auto simp: match_ok_def held_def stakedCount_def)
      ultimately show ?thesis
        using True cu by (simp add: g' held_def refund_events_def custody_def)
    next
      case False
      have "sum_list (map (flow j) (refund_events k (matches g k))) = 0"
        using False by (simp add: refund_events_def)
      then show ?thesis using False assms(1) by (simp add: g' inv_def custody_def)
    qed
  qed
qed

lemma inv_exec: "inv g \<Longrightarrow> exec sender now c g = Inr g' \<Longrightarrow> inv g'"
proof (cases c)
  case (Token tc)
  assume "inv g" and "exec sender now c g = Inr g'"
  then show ?thesis using Token
    by (auto simp: inv_def custody_def split: sum.splits)
next
  case (TransferOwnership a)
  assume "inv g" and "exec sender now c g = Inr g'"
  then show ?thesis using TransferOwnership
    by (auto simp: inv_def custody_def transferOwnership_def split: if_splits)
next
  case RenounceOwnership
  assume "inv g" and "exec sender now c g = Inr g'"
  then show ?thesis using RenounceOwnership
    by (auto simp: inv_def custody_def renounceOwnership_def split: if_splits)
qed (auto intro: inv_createMatch inv_stake inv_commitResult inv_refund)

lemma inv_step: "inv g \<Longrightarrow> inv (step g tx)"
  by (cases tx) (auto split: sum.splits intro: inv_exec)

lemma run_Nil [simp]: "run g [] = g"
  by (simp add: run_def)

lemma run_Cons [simp]: "run g (tx # txs) = run (step g tx) txs"
  by (simp add: run_def)

lemma inv_run: "inv g \<Longrightarrow> inv (run g txs)"
  by (induction txs arbitrary: g) (simp_all add: inv_step)

lemma inv_reachable: "inv (run (constructor deployer this token op tmo) txs)"
  by (rule inv_run [OF inv_constructor])

lemmas demo_simps = demo_game_def demo_setup_def demo_staked_def demo_settled_def zero_Match_def
  constructor_def GameToken_constructor_def getMatch_def
  createMatch_def createMatch_body_def stake_def stake_body_def commitResult_def commitResult_body_def
  refund_def refund_body_def refund_requires_def refund_player_def transact_def
  gt_mint_def gt_approve_def gt_transfer_def gt_transferFrom_def gt_pause_def gt_unpause_def
  erc20_mint_def erc20_approve_def erc20_transfer_def erc20_spendAllowance_def
  checked_add_def checked_mul_def Let_def

lemma step_cases:
  obtains (fail) "step g tx = g"
  | (ok) sender now c g' where "tx = Tx sender now c" "exec sender now c g = Inr g'" "step g tx = g'"
proof (cases tx)
  case (Tx sender now c)
  show thesis
  proof (cases "exec sender now c g")
    case (Inl e)
    with Tx have "step g tx = g" by simp
    then show thesis by (rule fail)
  next
    case (Inr g')
    with Tx have "step g tx = g'" by simp
    with Tx Inr show thesis by (rule ok)
  qed
qed

lemma exec_immutable:
  "exec sender now c g = Inr g' \<Longrightarrow>
   operator g' = operator g \<and> self g' = self g \<and> timeout g' = timeout g"
  by (cases c)
     (auto simp: createMatch_Inr stake_Inr commitResult_Inr refund_Inr transferOwnership_def
         renounceOwnership_def split: sum.splits if_splits)

lemma step_immutable:
  "operator (step g tx) = operator g \<and> self (step g tx) = self g \<and> timeout (step g tx) = timeout g"
  by (rule step_cases [of g tx]) (auto dest: exec_immutable)

lemma run_immutable:
  "operator (run g txs) = operator g \<and> self (run g txs) = self g \<and> timeout (run g txs) = timeout g"
  by (induction txs arbitrary: g) (simp_all add: step_immutable)

text \<open>The only calls that write the entry of a match are the four that name it.\<close>

lemma exec_matches:
  assumes "exec sender now c g = Inr g'"
  shows "matches g' k = matches g k \<or>
         (\<exists>p1 p2 stk. c = CreateMatch k p1 p2 stk \<and> id_m (matches g k) = 0 \<and> k \<noteq> 0 \<and>
            matches g' k = \<lparr>id_m = k, p1_m = p1, p2_m = p2, stake_m = stk, status_m = CREATED,
               p1Staked_m = False, p2Staked_m = False, startTime_m = 0\<rparr>) \<or>
         (c = Stake k \<and> may_stake sender (matches g k) \<and>
            matches g' k = staked_match sender now (matches g k)) \<or>
         (\<exists>w. c = CommitResult k w \<and> status_m (matches g k) = STAKED \<and>
            matches g' k = (matches g k)\<lparr>status_m := SETTLED\<rparr>) \<or>
         (c = Refund k \<and> status_m (matches g k) = STAKED \<and>
            matches g' k = (matches g k)\<lparr>status_m := REFUNDED\<rparr>)"
proof (cases c)
  case (CreateMatch j p1 p2 stk)
  then show ?thesis using assms by (cases "j = k") (auto simp: createMatch_Inr)
next
  case (Stake j)
  then show ?thesis using assms by (cases "j = k") (auto simp: stake_Inr)
next
  case (CommitResult j w)
  then show ?thesis using assms by (cases "j = k") (auto simp: commitResult_Inr)
next
  case (Refund j)
  then show ?thesis using assms
    by (cases "j = k") (auto simp: refund_Inr refund_requires_None)
next
  case (TransferOwnership a)
  then show ?thesis using assms by (auto simp: transferOwnership_def split: if_splits)
next
  case RenounceOwnership
  then show ?thesis using assms by (auto simp: renounceOwnership_def split: if_splits)
next
  case (Token tc)
  then show ?thesis using assms by (auto split: sum.splits)
qed

lemma status_staked_match:
  "may_stake sender m \<Longrightarrow>
   status_m (staked_match sender now m) = CREATED \<or> status_m (staked_match sender now m) = STAKED"
  by (auto simp: may_stake_def staked_match_def Let_def)

lemma status_exec:
  assumes "inv g" and "exec sender now c g = Inr g'"
  shows "status_move (status_m (matches g k)) (status_m (matches g' k))"
proof -
  from assms(1) have ok: "match_ok k (matches g k)"
    by (simp add: inv_def)
  from exec_matches [OF assms(2), of k] show ?thesis
  proof (elim disjE exE conjE)
    assume "matches g' k = matches g k"
    then show ?thesis by (simp add: status_move_def)
  next
    fix p1 p2 stk
    assume "id_m (matches g k) = 0"
      and "matches g' k = \<lparr>id_m = k, p1_m = p1, p2_m = p2, stake_m = stk, status_m = CREATED,
               p1Staked_m = False, p2Staked_m = False, startTime_m = 0\<rparr>"
    then show ?thesis using ok by (simp add: status_move_def match_ok_def zero_Match_def)
  next
    assume "may_stake sender (matches g k)" "matches g' k = staked_match sender now (matches g k)"
    then show ?thesis
      using status_staked_match [of sender "matches g k" now]
      by (auto simp: status_move_def may_stake_def)
  qed (simp_all add: status_move_def)
qed

lemma status_step: "inv g \<Longrightarrow> status_move (status_m (matches g k)) (status_m (matches (step g tx) k))"
  by (rule step_cases [of g tx]) (auto simp: status_move_def dest: status_exec)

lemma status_reach_move: "status_move a b \<Longrightarrow> status_reach b c \<Longrightarrow> status_reach a c"
  by (auto simp: status_move_def status_reach_def)

lemma status_run: "inv g \<Longrightarrow> status_reach (status_m (matches g k)) (status_m (matches (run g txs) k))"
proof (induction txs arbitrary: g)
  case Nil
  then show ?case by (simp add: status_reach_def)
next
  case (Cons tx txs)
  have "status_move (status_m (matches g k)) (status_m (matches (step g tx) k))"
    using Cons.prems by (rule status_step)
  moreover have "status_reach (status_m (matches (step g tx) k)) (status_m (matches (run (step g tx) txs) k))"
    using Cons.prems by (intro Cons.IH inv_step)
  ultimately show ?case
    by (simp add: status_reach_move)
qed

lemma status_terminal:
  "status_reach a b \<Longrightarrow> a = SETTLED \<or> a = REFUNDED \<Longrightarrow> b = a"
  by (auto simp: status_reach_def)

text \<open>
  Claim C2. In every state reached from a fresh deployment, one more call moves the
  status of a match only along \<open>CREATED \<rightarrow> STAKED\<close>, \<open>STAKED \<rightarrow> SETTLED\<close> or
  \<open>STAKED \<rightarrow> REFUNDED\<close> (or leaves it), any number of further calls only moves it
  forwards along these, and a status that is \<open>SETTLED\<close> or \<open>REFUNDED\<close> never changes
  again.
\<close>

theorem status_one_way:
  "status_move (status_m (getMatch k (run (constructor deployer this token op tmo) txs)))
     (status_m (getMatch k (step (run (constructor deployer this token op tmo) txs) tx))) \<and>
   status_reach (status_m (getMatch k (run (constructor deployer this token op tmo) txs)))
     (status_m (getMatch k (run (run (constructor deployer this token op tmo) txs) txs'))) \<and>
   (status_m (getMatch k (run (constructor deployer this token op tmo) txs)) = SETTLED \<or>
    status_m (getMatch k (run (constructor deployer this token op tmo) txs)) = REFUNDED \<longrightarrow>
      status_m (getMatch k (run (run (constructor deployer this token op tmo) txs) txs')) =
      status_m (getMatch k (run (constructor deployer this token op tmo) txs)))"
proof -
  let ?g = "run (constructor deployer this token op tmo) txs"
  have i: "inv ?g" by (rule inv_reachable)
  have r: "status_reach (status_m (matches ?g k)) (status_m (matches (run ?g txs') k))"
    using i by (rule status_run)
  show ?thesis
    using status_step [OF i, of k tx] r status_terminal [OF r]
    by (simp add: getMatch_def)
qed

lemma demo_settled_status: "status_m (getMatch 7 (run demo_game demo_settled)) = SETTLED"
  by (simp add: demo_simps)

theorem status_one_way_witness:
  "status_m (getMatch 7 (run demo_game demo_settled)) = SETTLED \<and>
   status_m (getMatch 7 (run (run demo_game demo_settled)
      [Tx 5 100000 (Refund 7), Tx 2 100001 (CommitResult 7 4), Tx 3 100002 (Stake 7)])) = SETTLED"
  using demo_settled_status
    status_one_way [of 7 1 9 "GameToken_constructor 1" 2 86400 demo_settled "Tx 5 100000 (Refund 7)"
      "[Tx 5 100000 (Refund 7), Tx 2 100001 (CommitResult 7 4), Tx 3 100002 (Stake 7)]"]
  by (simp add: demo_game_def)

section \<open>The runs, evaluated\<close>

lemmas demo_more = demo_simps demo_paused_def demo_one_sided_def demo_unapproved_def can_pay_def custody_def
  stakedCount_def refund_payments_def refund_pay_def canRefund_def

lemma demo_staked_facts:
  "status_m (getMatch 7 (run demo_game demo_staked)) = STAKED"
  "p1_m (getMatch 7 (run demo_game demo_staked)) = 3"
  "p2_m (getMatch 7 (run demo_game demo_staked)) = 4"
  "stake_m (getMatch 7 (run demo_game demo_staked)) = 100"
  "startTime_m (getMatch 7 (run demo_game demo_staked)) = 3000"
  "operator (run demo_game demo_staked) = 2"
  "self (run demo_game demo_staked) = 9"
  "timeout (run demo_game demo_staked) = 86400"
  "balances (gameToken (run demo_game demo_staked)) 3 = 900"
  "balances (gameToken (run demo_game demo_staked)) 4 = 900"
  "balances (gameToken (run demo_game demo_staked)) 9 = 200"
  "paused (gameToken (run demo_game demo_staked)) = False"
  by (simp_all add: demo_simps)

section \<open>Token transfers\<close>

lemma gt_transfer_Inr:
  "gt_transfer from to amount t = Inr t' \<longleftrightarrow>
     \<not> paused t \<and> from \<noteq> 0 \<and> to \<noteq> 0 \<and> amount \<le> balances t from \<and>
     t' = t\<lparr>balances := ((balances t)(from := balances t from - amount))
              (to := ((balances t)(from := balances t from - amount)) to + amount)\<rparr>"
  by (auto simp: gt_transfer_def erc20_transfer_def Let_def not_less)

lemma gt_transfer_balances:
  assumes "gt_transfer from to amount t = Inr t'" and "to \<noteq> from"
  shows "balances t' to = balances t to + amount"
    and "balances t' from = balances t from - amount"
    and "unat (balances t' from) + unat amount = unat (balances t from)"
    and "paused t' = paused t"
proof -
  from assms(1) have le: "amount \<le> balances t from"
    and t': "t' = t\<lparr>balances := ((balances t)(from := balances t from - amount))
              (to := ((balances t)(from := balances t from - amount)) to + amount)\<rparr>"
    by (simp_all add: gt_transfer_Inr)
  show "balances t' to = balances t to + amount" using assms(2) by (simp add: t')
  show f: "balances t' from = balances t from - amount" using assms(2) by (simp add: t')
  show "unat (balances t' from) + unat amount = unat (balances t from)"
    using le by (simp add: f unat_sub word_le_nat_alt)
  show "paused t' = paused t" by (simp add: t')
qed

lemma gt_transfer_self:
  "gt_transfer from from amount t = Inr t' \<Longrightarrow> balances t' = balances t \<and> paused t' = paused t"
  by (auto simp: gt_transfer_Inr fun_eq_iff)

lemma word_double_le:
  "2 * unat (s::uint256) \<le> unat (b::uint256) \<Longrightarrow> unat s * 2 < 2 ^ 256 \<and> s * 2 \<le> b \<and> unat (s * 2) = 2 * unat s"
proof -
  assume a: "2 * unat s \<le> unat b"
  have "unat b < 2 ^ 256" using unsigned_less [of b] by simp
  with a have lt: "unat s * 2 < 2 ^ 256" by simp
  then have e: "unat (s * 2) = unat s * 2" by (simp add: unat_word_ariths)
  with a have "s * 2 \<le> b" by (simp add: word_le_nat_alt)
  with lt e show ?thesis by simp
qed

text \<open>
  Each successful call has made exactly the token calls and emitted exactly the events
  that the escrow accounting pairs.
\<close>

lemma transfers_paired_with_events:
  "stake sender now k g = Inr g' \<Longrightarrow>
     gt_transferFrom (self g) sender (self g) (stake_m (matches g k)) (gameToken g) =
       Inr (gameToken g') \<and>
     events g' = events g @ [Staked k sender (stake_m (matches g k))]"
  "commitResult sender k winner g = Inr g' \<Longrightarrow>
     gt_transfer (self g) winner (stake_m (matches g k) * 2) (gameToken g) = Inr (gameToken g') \<and>
     events g' = events g @ [Settled k winner (stake_m (matches g k) * 2)]"
  "refund now k g = Inr g' \<Longrightarrow>
     refund_payments k g = Inr (gameToken g') \<and>
     events g' = events g @ refund_events k (matches g k)"
  by (auto simp: stake_Inr commitResult_Inr refund_Inr refund_payments_def Let_def)

lemma not_Inr_Inl: "(\<And>y. r \<noteq> Inr y) \<Longrightarrow> \<exists>e. r = Inl e"
  by (cases r) auto

lemma match_ok_not_created:
  assumes "match_ok k m" and "status_m m \<noteq> CREATED"
  shows "id_m m \<noteq> 0" "id_m m = k" "p1_m m \<noteq> 0" "p2_m m \<noteq> 0" "p1_m m \<noteq> p2_m m"
    "stake_m m \<noteq> 0" "p1Staked_m m" "p2Staked_m m"
    "status_m m = STAKED \<or> status_m m = SETTLED \<or> status_m m = REFUNDED"
  using assms by (auto simp: match_ok_def zero_Match_def split: if_splits)

lemma commitResult_not_staked:
  "id_m (matches g k) \<noteq> 0 \<Longrightarrow> status_m (matches g k) \<noteq> STAKED \<Longrightarrow>
   commitResult sender k w g =
     Inl (Revert (if sender = operator g then ''Match not staked''
                  else ''Only operator can commit results''))"
  by (simp add: commitResult_def transact_def commitResult_body_def)

lemma commitResult_can_pay:
  assumes "commitResult sender k w g = Inr g'"
  shows "can_pay g (2 * unat (stake_m (matches g k)))"
proof -
  from assms obtain t where ov: "unat (stake_m (matches g k)) * 2 < 2 ^ 256"
    and tr: "gt_transfer (self g) w (stake_m (matches g k) * 2) (gameToken g) = Inr t"
    by (auto simp: commitResult_Inr)
  from ov have "unat (stake_m (matches g k) * 2) = unat (stake_m (matches g k)) * 2"
    by (simp add: unat_word_ariths)
  with tr show ?thesis
    by (simp add: gt_transfer_Inr can_pay_def word_le_nat_alt)
qed




section \<open>Start times\<close>

lemma started_constructor: "started (constructor deployer this token op tmo)"
  by (simp add: started_def constructor_def zero_Match_def)

lemma started_exec:
  assumes "started g" and "now \<noteq> 0" and "exec sender now c g = Inr g'"
  shows "started g'"
  unfolding started_def
proof (intro allI impI)
  fix k
  assume nc: "status_m (matches g' k) \<noteq> CREATED"
  from assms(1) have old: "status_m (matches g k) \<noteq> CREATED \<Longrightarrow> startTime_m (matches g k) \<noteq> 0"
    by (simp add: started_def)
  from exec_matches [OF assms(3), of k] show "startTime_m (matches g' k) \<noteq> 0"
  proof (elim disjE exE conjE)
    assume "matches g' k = matches g k"
    then show ?thesis using nc old by simp
  next
    assume "may_stake sender (matches g k)" "matches g' k = staked_match sender now (matches g k)"
    then show ?thesis
      using nc assms(2) by (auto simp: may_stake_def staked_match_def Let_def split: if_splits)
  qed (use nc old in auto)
qed

lemma started_step: "started g \<Longrightarrow> timestamp tx \<noteq> 0 \<Longrightarrow> started (step g tx)"
  by (rule step_cases [of g tx]) (auto dest: started_exec)

lemma started_run: "started g \<Longrightarrow> \<forall>tx\<in>set txs. timestamp tx \<noteq> 0 \<Longrightarrow> started (run g txs)"
  by (induction txs arbitrary: g) (simp_all add: started_step)

section \<open>The pooled balance\<close>

lemma sum_upd:
  fixes f :: "'a::finite \<Rightarrow> nat"
  shows "(\<Sum>a\<in>UNIV. (f(x := v)) a) + f x = (\<Sum>a\<in>UNIV. f a) + v"
proof -
  have "(\<Sum>a\<in>UNIV. (f(x := v)) a) = v + (\<Sum>a\<in>UNIV - {x}. (f(x := v)) a)"
    by (simp add: sum.remove [of UNIV x])
  moreover have "(\<Sum>a\<in>UNIV - {x}. (f(x := v)) a) = (\<Sum>a\<in>UNIV - {x}. f a)"
    by (rule sum.cong) auto
  moreover have "(\<Sum>a\<in>UNIV. f a) = f x + (\<Sum>a\<in>UNIV - {x}. f a)"
    by (simp add: sum.remove [of UNIV x])
  ultimately show ?thesis by simp
qed

lemma sum_two_le:
  fixes f :: "'a::finite \<Rightarrow> nat"
  assumes "x \<noteq> y"
  shows "f x + f y \<le> (\<Sum>a\<in>UNIV. f a)"
proof -
  have "(\<Sum>a\<in>{x, y}. f a) \<le> (\<Sum>a\<in>UNIV. f a)"
    by (rule sum_mono2) auto
  then show ?thesis using assms by simp
qed

lemma sum_one_le:
  fixes f :: "'a::finite \<Rightarrow> nat"
  shows "f x \<le> (\<Sum>a\<in>UNIV. f a)"
  by (rule member_le_sum) auto

lemma unat_balances_upd:
  "(\<lambda>a. unat (((b::address \<Rightarrow> uint256)(x := v)) a)) = (\<lambda>a. unat (b a))(x := unat v)"
  by (auto simp: fun_eq_iff)

lemma erc20_transfer_books:
  assumes tr: "erc20_transfer from to amount t = Inr t'" and ok: "supply_ok t"
  shows "supply_ok t'"
    and "allowances t' = allowances t"
    and "paused t' = paused t"
    and "from \<noteq> to \<Longrightarrow> unat (balances t' to) = unat (balances t to) + unat amount"
    and "from \<noteq> to \<Longrightarrow> unat (balances t' from) + unat amount = unat (balances t from)"
    and "from = to \<Longrightarrow> balances t' = balances t"
    and "x \<noteq> from \<Longrightarrow> x \<noteq> to \<Longrightarrow> balances t' x = balances t x"
proof -
  from tr have le: "amount \<le> balances t from"
    and t': "t' = t\<lparr>balances := ((balances t)(from := balances t from - amount))
              (to := ((balances t)(from := balances t from - amount)) to + amount)\<rparr>"
    by (auto simp: erc20_transfer_def Let_def not_less split: if_splits)
  show "allowances t' = allowances t" "paused t' = paused t"
    by (simp_all add: t')
  show same: "balances t' = balances t" if "from = to"
    using that by (simp add: t' fun_eq_iff)
  show "balances t' x = balances t x" if "x \<noteq> from" "x \<noteq> to"
    using that by (simp add: t')
  let ?f = "\<lambda>a. unat (balances t a)"
  have sub: "unat (balances t from - amount) = unat (balances t from) - unat amount"
    and le': "unat amount \<le> unat (balances t from)"
    using le by (simp_all add: unat_sub word_le_nat_alt)
  have add: "unat (balances t to + amount) = unat (balances t to) + unat amount" if ne: "from \<noteq> to"
  proof -
    have "?f from + ?f to \<le> (\<Sum>a\<in>UNIV. ?f a)"
      using ne by (rule sum_two_le)
    also have "\<dots> = unat (totalSupply t)"
      using ok by (simp add: supply_ok_def)
    also have "\<dots> < 2 ^ 256"
      using unsigned_less [of "totalSupply t"] by simp
    finally have "unat (balances t to) + unat amount < 2 ^ 256"
      using le' by simp
    then show ?thesis
      by (simp add: unat_add_lem [THEN iffD1])
  qed
  show to: "unat (balances t' to) = unat (balances t to) + unat amount" if ne: "from \<noteq> to"
    using ne add by (simp add: t')
  show fr: "unat (balances t' from) + unat amount = unat (balances t from)" if ne: "from \<noteq> to"
    using ne sub le' by (simp add: t')
  show "supply_ok t'"
  proof (cases "from = to")
    case True
    then show ?thesis using ok same by (simp add: supply_ok_def t')
  next
    case False
    let ?v1 = "unat (balances t from - amount)" and ?v2 = "unat (balances t to + amount)"
    have e: "(\<lambda>a. unat (balances t' a)) = (?f(from := ?v1))(to := ?v2)"
      using False by (auto simp: t' fun_eq_iff)
    have "(\<Sum>a\<in>UNIV. ((?f(from := ?v1))(to := ?v2)) a) + (?f(from := ?v1)) to =
          (\<Sum>a\<in>UNIV. (?f(from := ?v1)) a) + ?v2"
      by (rule sum_upd)
    moreover have "(\<Sum>a\<in>UNIV. (?f(from := ?v1)) a) + ?f from = (\<Sum>a\<in>UNIV. ?f a) + ?v1"
      by (rule sum_upd)
    ultimately have "(\<Sum>a\<in>UNIV. unat (balances t' a)) = (\<Sum>a\<in>UNIV. ?f a)"
      using False sub le' add [OF False] unfolding e by simp
    then show ?thesis
      using ok by (simp add: supply_ok_def t')
  qed
qed

lemma erc20_spendAllowance_books:
  assumes "erc20_spendAllowance own spender amount t = Inr t'"
  shows "balances t' = balances t"
    and "totalSupply t' = totalSupply t"
    and "paused t' = paused t"
    and "a \<noteq> own \<Longrightarrow> allowances t' a = allowances t a"
    and "allowances t own spender = 0 \<Longrightarrow> amount = 0 \<and> allowances t' = allowances t"
proof -
  show "balances t' = balances t" "totalSupply t' = totalSupply t" "paused t' = paused t"
    using assms
    by (auto simp: erc20_spendAllowance_def erc20_approve_def Let_def split: if_splits)
  show "allowances t' a = allowances t a" if "a \<noteq> own"
    using assms that
    by (auto simp: erc20_spendAllowance_def erc20_approve_def Let_def split: if_splits)
  show "amount = 0 \<and> allowances t' = allowances t" if z: "allowances t own spender = 0"
  proof -
    have ne: "(0::uint256) \<noteq> - 1" by simp
    from assms z ne have a0: "amount = 0"
      by (auto simp: erc20_spendAllowance_def erc20_approve_def Let_def not_less
            split: if_splits)
    from assms z ne a0 have "allowances t' = (allowances t)(own := (allowances t own)(spender := 0))"
      by (auto simp: erc20_spendAllowance_def erc20_approve_def Let_def split: if_splits)
    also have "\<dots> = allowances t"
      using z by (simp add: fun_eq_iff)
    finally show ?thesis using a0 by simp
  qed
qed

lemma erc20_mint_books:
  assumes mi: "erc20_mint account amount t = Inr t'" and ok: "supply_ok t"
  shows "supply_ok t'"
    and "allowances t' = allowances t"
    and "unat (balances t' account) = unat (balances t account) + unat amount"
    and "x \<noteq> account \<Longrightarrow> balances t' x = balances t x"
proof -
  from mi have nov: "unat (totalSupply t) + unat amount < 2 ^ 256"
    and t': "t' = t\<lparr>balances := (balances t)(account := balances t account + amount),
                    totalSupply := totalSupply t + amount\<rparr>"
    by (auto simp: erc20_mint_def checked_add_def split: if_splits)
  show "allowances t' = allowances t" by (simp add: t')
  show "balances t' x = balances t x" if "x \<noteq> account" using that by (simp add: t')
  let ?f = "\<lambda>a. unat (balances t a)"
  have "?f account \<le> (\<Sum>a\<in>UNIV. ?f a)" by (rule sum_one_le)
  then have "unat (balances t account) + unat amount < 2 ^ 256"
    using ok nov by (simp add: supply_ok_def)
  then have add: "unat (balances t account + amount) = unat (balances t account) + unat amount"
    by (simp add: unat_add_lem [THEN iffD1])
  show "unat (balances t' account) = unat (balances t account) + unat amount"
    using add by (simp add: t')
  have ts: "unat (totalSupply t + amount) = unat (totalSupply t) + unat amount"
    using nov by (simp add: unat_add_lem [THEN iffD1])
  have e: "(\<lambda>a. unat (balances t' a)) = ?f(account := unat (balances t account + amount))"
    by (auto simp: t' fun_eq_iff)
  have "(\<Sum>a\<in>UNIV. (?f(account := unat (balances t account + amount))) a) + ?f account =
        (\<Sum>a\<in>UNIV. ?f a) + unat (balances t account + amount)"
    by (rule sum_upd)
  then have "(\<Sum>a\<in>UNIV. unat (balances t' a)) = (\<Sum>a\<in>UNIV. ?f a) + unat amount"
    unfolding e using add by simp
  then show "supply_ok t'"
    using ok ts by (simp add: supply_ok_def t')
qed


lemma uint_plus: "unat (a::uint256) = unat (b::uint256) + unat (c::uint256) \<Longrightarrow> uint a = uint b + uint c"
proof -
  assume "unat a = unat b + unat c"
  then have "int (unat a) = int (unat b + unat c)" by (simp only:)
  then show ?thesis by simp
qed

lemma uint_minus: "unat (a::uint256) + unat (c::uint256) = unat (b::uint256) \<Longrightarrow> uint a = uint b - uint c"
proof -
  assume "unat a + unat c = unat b"
  then have "int (unat a + unat c) = int (unat b)" by (simp only:)
  then show ?thesis by simp
qed

lemma gt_transferFrom_balances:
  assumes "gt_transferFrom spender from to amount t = Inr t'" and "from \<noteq> to"
  shows "balances t' to = balances t to + amount"
    and "unat (balances t' from) + unat amount = unat (balances t from)"
proof -
  from assms(1) obtain t1 where sp: "erc20_spendAllowance from spender amount t = Inr t1"
    and tr: "erc20_transfer from to amount t1 = Inr t'"
    by (auto simp: gt_transferFrom_def split: if_splits sum.splits)
  have b1: "balances t1 = balances t"
    using sp by (rule erc20_spendAllowance_books)
  from tr have le: "amount \<le> balances t1 from"
    and t': "t' = t1\<lparr>balances := ((balances t1)(from := balances t1 from - amount))
              (to := ((balances t1)(from := balances t1 from - amount)) to + amount)\<rparr>"
    by (auto simp: erc20_transfer_def Let_def not_less split: if_splits)
  show "balances t' to = balances t to + amount"
    using assms(2) by (simp add: t' b1)
  show "unat (balances t' from) + unat amount = unat (balances t from)"
    using assms(2) le by (simp add: t' b1 unat_sub word_le_nat_alt)
qed

lemma sound_deposit:
  assumes s: "sound_token this t" and ne: "sender \<noteq> this"
    and tr: "gt_transferFrom this sender this amount t = Inr t'"
  shows "sound_token this t'"
    and "uint (balances t' this) = uint (balances t this) + uint amount"
proof -
  from tr obtain t1 where sp: "erc20_spendAllowance sender this amount t = Inr t1"
    and tr1: "erc20_transfer sender this amount t1 = Inr t'"
    by (auto simp: gt_transferFrom_def split: if_splits sum.splits)
  note f = erc20_spendAllowance_books [OF sp]
  have ok1: "supply_ok t1"
    using s by (simp add: sound_token_def supply_ok_def f(1,2))
  have al1: "allowances t1 this = allowances t this"
    using ne by (simp add: f(4))
  note h = erc20_transfer_books [OF tr1 ok1]
  show "sound_token this t'"
    using s h(1,2) al1 by (simp add: sound_token_def)
  have "unat (balances t' this) = unat (balances t this) + unat amount"
    using h(4) [OF ne] by (simp add: f(1))
  then show "uint (balances t' this) = uint (balances t this) + uint amount"
    by (rule uint_plus)
qed

lemma sound_payout:
  assumes s: "sound_token this t" and ne: "to \<noteq> this"
    and tr: "gt_transfer this to amount t = Inr t'"
  shows "sound_token this t'"
    and "uint (balances t' this) = uint (balances t this) - uint amount"
proof -
  from tr have tr1: "erc20_transfer this to amount t = Inr t'"
    by (auto simp: gt_transfer_def split: if_splits)
  from s have ok: "supply_ok t" by (simp add: sound_token_def)
  note h = erc20_transfer_books [OF tr1 ok]
  show "sound_token this t'"
    using s h(1,2) by (simp add: sound_token_def)
  have "unat (balances t' this) + unat amount = unat (balances t this)"
    using h(5) ne by simp
  then show "uint (balances t' this) = uint (balances t this) - uint amount"
    by (rule uint_minus)
qed

lemma sound_token_exec:
  assumes s: "sound_token this t" and ne: "sender \<noteq> this"
    and ex: "token_exec sender c t = Inr t'"
  shows "sound_token this t' \<and> uint (balances t' this) = uint (balances t this) + credit this c"
proof (cases c)
  case (Mint to amount)
  with ex have mi: "erc20_mint to amount t = Inr t'"
    by (auto simp: gt_mint_def split: if_splits)
  from s have ok: "supply_ok t" by (simp add: sound_token_def)
  note h = erc20_mint_books [OF mi ok]
  have "sound_token this t'"
    using s h(1,2) by (simp add: sound_token_def)
  moreover have "uint (balances t' this) = uint (balances t this) + credit this c"
  proof (cases "to = this")
    case True
    then show ?thesis using uint_plus [OF h(3)] Mint by simp
  next
    case False
    then show ?thesis using h(4) [of this] Mint by simp
  qed
  ultimately show ?thesis by simp
next
  case (GrantMinterRole a)
  with ex s show ?thesis
    by (auto simp: gt_grantMinterRole_def sound_token_def supply_ok_def split: if_splits)
next
  case Pause
  with ex s show ?thesis
    by (auto simp: gt_pause_def sound_token_def supply_ok_def split: if_splits)
next
  case Unpause
  with ex s show ?thesis
    by (auto simp: gt_unpause_def sound_token_def supply_ok_def split: if_splits)
next
  case (Transfer to amount)
  with ex have tr: "erc20_transfer sender to amount t = Inr t'"
    by (auto simp: gt_transfer_def split: if_splits)
  from s have ok: "supply_ok t" by (simp add: sound_token_def)
  note h = erc20_transfer_books [OF tr ok]
  have "sound_token this t'"
    using s h(1,2) by (simp add: sound_token_def)
  moreover have "uint (balances t' this) = uint (balances t this) + credit this c"
  proof (cases "to = this")
    case True
    then show ?thesis using uint_plus [OF h(4)] ne Transfer by simp
  next
    case False
    then show ?thesis using h(7) [of this] ne Transfer by simp
  qed
  ultimately show ?thesis by simp
next
  case (TransferFrom src dst amount)
  with ex obtain t1 where sp: "erc20_spendAllowance src sender amount t = Inr t1"
    and tr: "erc20_transfer src dst amount t1 = Inr t'"
    by (auto simp: gt_transferFrom_def split: if_splits sum.splits)
  note f = erc20_spendAllowance_books [OF sp]
  have ok1: "supply_ok t1"
    using s by (simp add: sound_token_def supply_ok_def f(1,2))
  have al: "allowances t1 this = allowances t this \<and> (src = this \<longrightarrow> amount = 0)"
  proof (cases "src = this")
    case True
    then have "allowances t src sender = 0" using s by (simp add: sound_token_def)
    then show ?thesis using f(5) by simp
  next
    case False
    then show ?thesis by (simp add: f(4))
  qed
  note h = erc20_transfer_books [OF tr ok1]
  have "sound_token this t'"
    using s h(1,2) al by (simp add: sound_token_def)
  moreover have "uint (balances t' this) = uint (balances t this) + credit this c"
  proof (cases "src = dst")
    case True
    then show ?thesis using h(6) al TransferFrom by (auto simp: f(1))
  next
    case ft: False
    show ?thesis
    proof (cases "dst = this")
      case True
      then show ?thesis using uint_plus [OF h(4) [OF ft]] TransferFrom by (simp add: f(1))
    next
      case nt: False
      show ?thesis
      proof (cases "src = this")
        case True
        then have "amount = 0" using al by simp
        then show ?thesis using uint_minus [OF h(5) [OF ft]] True nt TransferFrom by (simp add: f(1))
      next
        case False
        then show ?thesis using h(7) [of this] nt TransferFrom by (simp add: f(1))
      qed
    qed
  qed
  ultimately show ?thesis by simp
next
  case (Approve spender amount)
  with ex s ne show ?thesis
    by (auto simp: gt_approve_def erc20_approve_def sound_token_def supply_ok_def split: if_splits)
qed


lemma outsiders_staked_match:
  assumes "may_stake sender m" and "sender \<noteq> this"
    and "(p1Staked_m m \<longrightarrow> p1_m m \<noteq> this) \<and> (p2Staked_m m \<longrightarrow> p2_m m \<noteq> this)"
  shows "(p1Staked_m (staked_match sender now m) \<longrightarrow> p1_m (staked_match sender now m) \<noteq> this) \<and>
         (p2Staked_m (staked_match sender now m) \<longrightarrow> p2_m (staked_match sender now m) \<noteq> this)"
  using assms by (auto simp: staked_match_def may_stake_def Let_def split: if_splits)

lemma books_createMatch:
  assumes b: "books B g" and ex: "createMatch sender k p1 p2 stk g = Inr g'"
  shows "books B g'"
proof -
  from ex have g': "g' = g\<lparr>matches := (matches g)(k :=
              \<lparr>id_m = k, p1_m = p1, p2_m = p2, stake_m = stk, status_m = CREATED,
               p1Staked_m = False, p2Staked_m = False, startTime_m = 0\<rparr>),
            events := events g @ [MatchCreated k p1 p2 stk]\<rparr>"
    by (simp add: createMatch_Inr)
  from b have o: "outsiders g" by (simp add: books_def)
  have "outsiders g'"
    unfolding outsiders_def
  proof (intro allI)
    fix j
    show "(p1Staked_m (matches g' j) \<longrightarrow> p1_m (matches g' j) \<noteq> self g') \<and>
          (p2Staked_m (matches g' j) \<longrightarrow> p2_m (matches g' j) \<noteq> self g')"
      using o by (cases "j = k") (simp_all add: g' outsiders_def)
  qed
  then show ?thesis
    using b by (simp add: books_def g' escrow_total_def)
qed

lemma books_stake:
  assumes b: "books B g" and ne: "sender \<noteq> self g" and ex: "stake sender now k g = Inr g'"
  shows "books B g'"
proof -
  from ex obtain t where ms: "may_stake sender (matches g k)"
    and tr: "gt_transferFrom (self g) sender (self g) (stake_m (matches g k)) (gameToken g) = Inr t"
    and g': "g' = g\<lparr>matches := (matches g)(k := staked_match sender now (matches g k)),
                 gameToken := t,
                 events := events g @ [Staked k sender (stake_m (matches g k))]\<rparr>"
    by (auto simp: stake_Inr)
  from b have s: "sound_token (self g) (gameToken g)" and o: "outsiders g"
    and e: "uint (balances (gameToken g) (self g)) = B + escrow_total g"
    by (simp_all add: books_def)
  note d = sound_deposit [OF s ne tr]
  have "outsiders g'"
    unfolding outsiders_def
  proof (intro allI)
    fix j
    show "(p1Staked_m (matches g' j) \<longrightarrow> p1_m (matches g' j) \<noteq> self g') \<and>
          (p2Staked_m (matches g' j) \<longrightarrow> p2_m (matches g' j) \<noteq> self g')"
    proof (cases "j = k")
      case True
      have "(p1Staked_m (matches g k) \<longrightarrow> p1_m (matches g k) \<noteq> self g) \<and>
            (p2Staked_m (matches g k) \<longrightarrow> p2_m (matches g k) \<noteq> self g)"
        using o by (simp add: outsiders_def)
      from outsiders_staked_match [OF ms ne this, of now] True show ?thesis
        by (simp add: g')
    next
      case False
      then show ?thesis using o by (simp add: g' outsiders_def)
    qed
  qed
  then show ?thesis
    using d e by (simp add: books_def g' escrow_total_def)
qed

lemma books_commitResult:
  assumes b: "books B g" and i: "inv g" and ex: "commitResult sender k winner g = Inr g'"
  shows "books B g'"
proof -
  from ex obtain t where st: "status_m (matches g k) = STAKED"
    and w: "winner = p1_m (matches g k) \<or> winner = p2_m (matches g k)"
    and tr: "gt_transfer (self g) winner (stake_m (matches g k) * 2) (gameToken g) = Inr t"
    and g': "g' = g\<lparr>matches := (matches g)(k := (matches g k)\<lparr>status_m := SETTLED\<rparr>),
                 gameToken := t,
                 events := events g @ [Settled k winner (stake_m (matches g k) * 2)]\<rparr>"
    by (auto simp: commitResult_Inr)
  from b have s: "sound_token (self g) (gameToken g)" and o: "outsiders g"
    and e: "uint (balances (gameToken g) (self g)) = B + escrow_total g"
    by (simp_all add: books_def)
  from i have ok: "match_ok k (matches g k)" by (simp add: inv_def)
  from st have nc: "status_m (matches g k) \<noteq> CREATED" by simp
  note mk = match_ok_not_created [OF ok nc]
  have ow: "winner \<noteq> self g"
    using o w mk(7,8) by (auto simp: outsiders_def)
  note d = sound_payout [OF s ow tr]
  have "outsiders g'"
    unfolding outsiders_def
  proof (intro allI)
    fix j
    show "(p1Staked_m (matches g' j) \<longrightarrow> p1_m (matches g' j) \<noteq> self g') \<and>
          (p2Staked_m (matches g' j) \<longrightarrow> p2_m (matches g' j) \<noteq> self g')"
      using o by (cases "j = k") (simp_all add: g' outsiders_def)
  qed
  then show ?thesis
    using d e by (simp add: books_def g' escrow_total_def)
qed

lemma books_refund:
  assumes b: "books B g" and i: "inv g" and ex: "refund now k g = Inr g'"
  shows "books B g'"
proof -
  let ?m = "matches g k"
  from ex obtain t1 t2 where rq: "refund_requires now k g = None"
    and p1: "refund_pay (self g) (p1Staked_m ?m) (p1_m ?m) (stake_m ?m) (gameToken g) = Inr t1"
    and p2: "refund_pay (self g) (p2Staked_m ?m) (p2_m ?m) (stake_m ?m) t1 = Inr t2"
    and g': "g' = g\<lparr>matches := (matches g)(k := ?m\<lparr>status_m := REFUNDED\<rparr>),
                     gameToken := t2,
                     events := events g @ refund_events k ?m\<rparr>"
    by (auto simp: refund_Inr)
  from rq have st: "status_m ?m = STAKED" by (simp add: refund_requires_None)
  from b have s: "sound_token (self g) (gameToken g)" and o: "outsiders g"
    and e: "uint (balances (gameToken g) (self g)) = B + escrow_total g"
    by (simp_all add: books_def)
  from i have ok: "match_ok k ?m" by (simp add: inv_def)
  from st have nc: "status_m ?m \<noteq> CREATED" by simp
  note mk = match_ok_not_created [OF ok nc]
  have o1: "p1_m ?m \<noteq> self g" and o2: "p2_m ?m \<noteq> self g"
    using o mk(7,8) by (auto simp: outsiders_def)
  from p1 mk(7) have tr1: "gt_transfer (self g) (p1_m ?m) (stake_m ?m) (gameToken g) = Inr t1"
    by (simp add: refund_pay_def)
  from p2 mk(8) have tr2: "gt_transfer (self g) (p2_m ?m) (stake_m ?m) t1 = Inr t2"
    by (simp add: refund_pay_def)
  note d1 = sound_payout [OF s o1 tr1]
  note d2 = sound_payout [OF d1(1) o2 tr2]
  have "outsiders g'"
    unfolding outsiders_def
  proof (intro allI)
    fix j
    show "(p1Staked_m (matches g' j) \<longrightarrow> p1_m (matches g' j) \<noteq> self g') \<and>
          (p2Staked_m (matches g' j) \<longrightarrow> p2_m (matches g' j) \<noteq> self g')"
      using o by (cases "j = k") (simp_all add: g' outsiders_def)
  qed
  then show ?thesis
    using d1(2) d2 e mk(7,8) by (simp add: books_def g' escrow_total_def refund_events_def)
qed

lemma books_exec:
  assumes b: "books B g" and i: "inv g" and ne: "sender \<noteq> self g"
    and ex: "exec sender now c g = Inr g'"
  shows "books (B + gift g (Tx sender now c)) g'"
proof (cases c)
  case (CreateMatch k p1 p2 stk)
  then show ?thesis using b ex by (auto intro: books_createMatch)
next
  case (Stake k)
  then show ?thesis using b ne ex by (auto intro: books_stake)
next
  case (CommitResult k w)
  then show ?thesis using b i ex by (auto intro: books_commitResult)
next
  case (Refund k)
  then show ?thesis using b i ex by (auto intro: books_refund)
next
  case (TransferOwnership a)
  then show ?thesis using b ex
    by (auto simp: transferOwnership_def books_def outsiders_def escrow_total_def split: if_splits)
next
  case RenounceOwnership
  then show ?thesis using b ex
    by (auto simp: renounceOwnership_def books_def outsiders_def escrow_total_def split: if_splits)
next
  case (Token tc)
  with ex obtain t where te: "token_exec sender tc (gameToken g) = Inr t"
    and g': "g' = g\<lparr>gameToken := t\<rparr>"
    by (auto split: sum.splits)
  from b have s: "sound_token (self g) (gameToken g)" and o: "outsiders g"
    and e: "uint (balances (gameToken g) (self g)) = B + escrow_total g"
    by (simp_all add: books_def)
  from sound_token_exec [OF s ne te] o e show ?thesis
    by (simp add: Token te g' books_def outsiders_def escrow_total_def)
qed

lemma gift_failed: "exec sender now c g = Inl e \<Longrightarrow> gift g (Tx sender now c) = 0"
  by (cases c) (auto split: sum.splits)

lemma books_step:
  assumes "books B g" and "inv g" and "tx_sender tx \<noteq> self g"
  shows "books (B + gift g tx) (step g tx)"
proof -
  obtain sender now c where tx: "tx = Tx sender now c" by (cases tx)
  show ?thesis
  proof (cases "exec sender now c g")
    case (Inl e)
    then show ?thesis using assms(1) gift_failed [OF Inl] by (simp add: tx)
  next
    case (Inr g')
    then show ?thesis using books_exec [OF assms(1,2) _ Inr] assms(3) by (simp add: tx)
  qed
qed

lemma books_run:
  "books B g \<Longrightarrow> inv g \<Longrightarrow> \<forall>tx\<in>set txs. tx_sender tx \<noteq> self g \<Longrightarrow>
   books (B + gifts g txs) (run g txs)"
proof (induction txs arbitrary: B g)
  case Nil
  then show ?case by simp
next
  case (Cons tx txs)
  have b: "books (B + gift g tx) (step g tx)"
    using Cons.prems by (intro books_step) simp_all
  have i: "inv (step g tx)"
    using Cons.prems(2) by (rule inv_step)
  have s: "self (step g tx) = self g"
    by (simp add: step_immutable)
  from Cons.IH [OF b i] Cons.prems(3) s show ?case
    by (simp add: add.assoc)
qed

lemma books_constructor:
  "sound_token this token \<Longrightarrow>
   books (uint (balances token this)) (constructor deployer this token op tmo)"
  by (simp add: books_def constructor_def outsiders_def escrow_total_def zero_Match_def)

lemma credit_nonneg: "0 \<le> credit this c"
  by (cases c) simp_all

lemma gift_nonneg: "0 \<le> gift g tx"
proof -
  obtain sender now c where tx: "tx = Tx sender now c" by (cases tx)
  show ?thesis
    by (cases c) (auto simp: tx credit_nonneg split: sum.splits)
qed

lemma gifts_nonneg: "0 \<le> gifts g txs"
  by (induction txs arbitrary: g) (simp_all add: gift_nonneg)

lemma pays_flow: "(\<Sum>j\<in>UNIV. flow j e) = pays e"
  by (cases e) simp_all

lemma escrow_total_sum: "escrow_total g = (\<Sum>j\<in>UNIV. custody j g)"
proof -
  have "sum_list (map pays es) = (\<Sum>j\<in>UNIV. sum_list (map (flow j) es))" for es
  proof (induction es)
    case Nil
    show ?case by simp
  next
    case (Cons e es)
    then show ?case by (simp add: sum.distrib pays_flow)
  qed
  then show ?thesis by (simp add: escrow_total_def custody_def)
qed

lemma held_nonneg: "0 \<le> held m"
  by (simp add: held_def stakedCount_def)

lemma custody_le_total:
  assumes "inv g"
  shows "custody k g \<le> escrow_total g"
proof -
  have "custody k g \<le> (\<Sum>j\<in>UNIV. custody j g)"
  proof (rule member_le_sum)
    show "k \<in> UNIV" by simp
    show "0 \<le> custody j g" if "j \<in> UNIV - {k}" for j
      using assms by (simp add: inv_def held_nonneg)
    show "finite (UNIV :: bytes32 set)" by simp
  qed
  then show ?thesis by (simp add: escrow_total_sum)
qed

text \<open>
  The books of a deployment: from a token whose books are in order, by transactions that
  the contract itself does not send, the contract's balance is what it held at
  deployment, plus what was sent to it directly, plus what the events of all matches
  leave in it.
\<close>

lemma books_reachable:
  assumes "sound_token this token" and "\<forall>tx\<in>set txs. tx_sender tx \<noteq> this"
  shows "books (uint (balances token this) + gifts (constructor deployer this token op tmo) txs)
           (run (constructor deployer this token op tmo) txs)"
proof -
  have "self (constructor deployer this token op tmo) = this"
    by (simp add: constructor_def)
  with assms(2) show ?thesis
    by (intro books_run books_constructor inv_constructor assms(1)) simp
qed

text \<open>A player whose flag is set is not the contract, which sends no transaction.\<close>

lemma outsiders_exec:
  assumes o: "outsiders g" and ne: "sender \<noteq> self g" and ex: "exec sender now c g = Inr g'"
  shows "outsiders g'"
proof (cases c)
  case (CreateMatch k p1 p2 stk)
  with ex have g': "g' = g\<lparr>matches := (matches g)(k :=
              \<lparr>id_m = k, p1_m = p1, p2_m = p2, stake_m = stk, status_m = CREATED,
               p1Staked_m = False, p2Staked_m = False, startTime_m = 0\<rparr>),
            events := events g @ [MatchCreated k p1 p2 stk]\<rparr>"
    by (simp add: createMatch_Inr)
  show ?thesis
    unfolding outsiders_def
  proof (intro allI)
    fix j
    show "(p1Staked_m (matches g' j) \<longrightarrow> p1_m (matches g' j) \<noteq> self g') \<and>
          (p2Staked_m (matches g' j) \<longrightarrow> p2_m (matches g' j) \<noteq> self g')"
      using o by (cases "j = k") (simp_all add: g' outsiders_def)
  qed
next
  case (Stake k)
  with ex obtain t where ms: "may_stake sender (matches g k)"
    and g': "g' = g\<lparr>matches := (matches g)(k := staked_match sender now (matches g k)),
                 gameToken := t,
                 events := events g @ [Staked k sender (stake_m (matches g k))]\<rparr>"
    by (auto simp: stake_Inr)
  show ?thesis
    unfolding outsiders_def
  proof (intro allI)
    fix j
    show "(p1Staked_m (matches g' j) \<longrightarrow> p1_m (matches g' j) \<noteq> self g') \<and>
          (p2Staked_m (matches g' j) \<longrightarrow> p2_m (matches g' j) \<noteq> self g')"
    proof (cases "j = k")
      case True
      have "(p1Staked_m (matches g k) \<longrightarrow> p1_m (matches g k) \<noteq> self g) \<and>
            (p2Staked_m (matches g k) \<longrightarrow> p2_m (matches g k) \<noteq> self g)"
        using o by (simp add: outsiders_def)
      from outsiders_staked_match [OF ms ne this, of now] True show ?thesis
        by (simp add: g')
    next
      case False
      then show ?thesis using o by (simp add: g' outsiders_def)
    qed
  qed
next
  case (CommitResult k w)
  with ex obtain t where
    g': "g' = g\<lparr>matches := (matches g)(k := (matches g k)\<lparr>status_m := SETTLED\<rparr>),
                 gameToken := t,
                 events := events g @ [Settled k w (stake_m (matches g k) * 2)]\<rparr>"
    by (auto simp: commitResult_Inr)
  show ?thesis
    unfolding outsiders_def
  proof (intro allI)
    fix j
    show "(p1Staked_m (matches g' j) \<longrightarrow> p1_m (matches g' j) \<noteq> self g') \<and>
          (p2Staked_m (matches g' j) \<longrightarrow> p2_m (matches g' j) \<noteq> self g')"
      using o by (cases "j = k") (simp_all add: g' outsiders_def)
  qed
next
  case (Refund k)
  with ex obtain t where
    g': "g' = g\<lparr>matches := (matches g)(k := (matches g k)\<lparr>status_m := REFUNDED\<rparr>),
                     gameToken := t,
                     events := events g @ refund_events k (matches g k)\<rparr>"
    by (auto simp: refund_Inr)
  show ?thesis
    unfolding outsiders_def
  proof (intro allI)
    fix j
    show "(p1Staked_m (matches g' j) \<longrightarrow> p1_m (matches g' j) \<noteq> self g') \<and>
          (p2Staked_m (matches g' j) \<longrightarrow> p2_m (matches g' j) \<noteq> self g')"
      using o by (cases "j = k") (simp_all add: g' outsiders_def)
  qed
next
  case (TransferOwnership a)
  then show ?thesis using o ex
    by (auto simp: transferOwnership_def outsiders_def split: if_splits)
next
  case RenounceOwnership
  then show ?thesis using o ex
    by (auto simp: renounceOwnership_def outsiders_def split: if_splits)
next
  case (Token tc)
  then show ?thesis using o ex
    by (auto simp: outsiders_def split: sum.splits)
qed

lemma outsiders_step:
  assumes "outsiders g" and "tx_sender tx \<noteq> self g"
  shows "outsiders (step g tx)"
proof -
  obtain sender now c where tx: "tx = Tx sender now c" by (cases tx)
  show ?thesis
  proof (cases "exec sender now c g")
    case (Inl e)
    then show ?thesis using assms(1) by (simp add: tx)
  next
    case (Inr g')
    then show ?thesis using outsiders_exec [OF assms(1) _ Inr] assms(2) by (simp add: tx)
  qed
qed

lemma outsiders_run:
  "outsiders g \<Longrightarrow> \<forall>tx\<in>set txs. tx_sender tx \<noteq> self g \<Longrightarrow> outsiders (run g txs)"
proof (induction txs arbitrary: g)
  case Nil
  then show ?case by simp
next
  case (Cons tx txs)
  have o: "outsiders (step g tx)"
    using Cons.prems by (intro outsiders_step) simp_all
  have s: "self (step g tx) = self g"
    by (simp add: step_immutable)
  from Cons.IH [OF o] Cons.prems(2) s show ?case by simp
qed

lemma outsiders_reachable:
  assumes "\<forall>tx\<in>set txs. tx_sender tx \<noteq> this"
  shows "outsiders (run (constructor deployer this token op tmo) txs)"
proof -
  have "outsiders (constructor deployer this token op tmo)"
    by (simp add: outsiders_def constructor_def zero_Match_def)
  moreover have "self (constructor deployer this token op tmo) = this"
    by (simp add: constructor_def)
  ultimately show ?thesis
    using assms by (intro outsiders_run) simp_all
qed

section \<open>Staking\<close>

lemma stakedCount_cases:
  "stakedCount m = 2 \<longleftrightarrow> p1Staked_m m \<and> p2Staked_m m"
  "stakedCount m = 1 \<longleftrightarrow> p1Staked_m m \<noteq> p2Staked_m m"
  "stakedCount m < 2 \<longleftrightarrow> \<not> (p1Staked_m m \<and> p2Staked_m m)"
  by (auto simp: stakedCount_def)

lemma stake_not_created:
  "status_m (matches g k) \<noteq> CREATED \<Longrightarrow> \<exists>e. stake sender now k g = Inl e"
  by (rule not_Inr_Inl) (auto simp: stake_Inr may_stake_def)

lemma status_reach_left: "status_reach a b \<Longrightarrow> a \<noteq> CREATED \<Longrightarrow> b \<noteq> CREATED"
  by (auto simp: status_reach_def)


lemma sound_fresh_token: "sound_token this (GameToken_constructor deployer)"
  by (simp add: sound_token_def supply_ok_def GameToken_constructor_def)

lemma demo_staked_senders: "\<forall>tx\<in>set demo_staked. tx_sender tx \<noteq> 9"
  by (simp add: demo_staked_def demo_setup_def)

lemma demo_staked_gifts: "gifts demo_game demo_staked = 0"
  by (simp add: demo_simps)



lemma refund_not_staked:
  "id_m (matches g k) \<noteq> 0 \<Longrightarrow> status_m (matches g k) \<noteq> STAKED \<Longrightarrow>
   refund now k g = Inl (Revert ''Match not staked'')"
  by (simp add: refund_def transact_def refund_body_def refund_requires_def)

text \<open>
  Claim C8. In any state reached from a fresh deployment, a match with exactly one staked
  flag is in status \<open>CREATED\<close> with no start time; \<open>refund\<close> on it fails with
  \<open>Match not staked\<close> at every block timestamp and leaves the state as it is, no
  \<open>commitResult\<close> succeeds on it, and its escrow is the one stake.
\<close>

theorem one_sided_stake_stays_created:
  fixes deployer this :: address and token op tmo txs k
  defines "g \<equiv> run (constructor deployer this token op tmo) txs"
  defines "m \<equiv> getMatch k g"
  assumes one: "stakedCount m = 1"
  shows "status_m m = CREATED \<and> startTime_m m = 0 \<and>
         (\<forall>now. refund now k g = Inl (Revert ''Match not staked'')) \<and>
         (\<forall>sender now. step g (Tx sender now (Refund k)) = g) \<and>
         (\<forall>sender winner. commitResult sender k winner g =
            Inl (Revert (if sender = operator g then ''Match not staked''
                         else ''Only operator can commit results''))) \<and>
         custody k g = uint (stake_m m) \<and> 0 < stake_m m"
proof -
  have i: "inv g" unfolding g_def by (rule inv_reachable)
  then have ok: "match_ok k (matches g k)" and cu: "custody k g = held (matches g k)"
    by (simp_all add: inv_def)
  have m: "m = matches g k" by (simp add: m_def getMatch_def)
  have fl: "p1Staked_m (matches g k) \<noteq> p2Staked_m (matches g k)"
    using one by (simp add: stakedCount_cases m)
  have idn: "id_m (matches g k) \<noteq> 0"
    using ok fl by (auto simp: match_ok_def zero_Match_def split: if_splits)
  have cr: "status_m (matches g k) = CREATED" and st0: "startTime_m (matches g k) = 0"
    and pos: "stake_m (matches g k) \<noteq> 0"
    using ok fl idn by (auto simp: match_ok_def split: if_splits)
  have r: "refund now k g = Inl (Revert ''Match not staked'')" for now
    using idn cr by (simp add: refund_not_staked)
  then have s: "step g (Tx sender now (Refund k)) = g" for sender now
    by simp
  have c: "commitResult sender k winner g =
            Inl (Revert (if sender = operator g then ''Match not staked''
                         else ''Only operator can commit results''))" for sender winner
    using idn cr by (simp add: commitResult_not_staked)
  have "custody k g = uint (stake_m m)"
    using cu cr one by (simp add: held_def m)
  with cr st0 r s c pos show ?thesis
    by (simp add: m word_gt_0)
qed

theorem one_sided_stake_stays_created_witness:
  "stakedCount (getMatch 7 (run demo_game demo_one_sided)) = 1 \<and>
   status_m (getMatch 7 (run demo_game demo_one_sided)) = CREATED \<and>
   startTime_m (getMatch 7 (run demo_game demo_one_sided)) = 0 \<and>
   refund 1000000000 7 (run demo_game demo_one_sided) = Inl (Revert ''Match not staked'') \<and>
   custody 7 (run demo_game demo_one_sided) = 100"
proof -
  let ?g = "run demo_game demo_one_sided"
  have one: "stakedCount (getMatch 7 ?g) = 1"
    by (simp add: demo_more)
  have sk: "stake_m (getMatch 7 ?g) = 100"
    by (simp add: demo_more)
  note th = one_sided_stake_stays_created [of 7 1 9 "GameToken_constructor 1" 2 86400 demo_one_sided,
      folded demo_game_def, OF one]
  from th one sk show ?thesis by simp
qed

section \<open>Refunds\<close>

lemma gt_transfer_other:
  "gt_transfer from to amount t = Inr t' \<Longrightarrow> x \<noteq> from \<Longrightarrow> x \<noteq> to \<Longrightarrow>
   balances t' x = balances t x"
  by (auto simp: gt_transfer_Inr)

lemma refund_before_deadline:
  assumes "id_m (matches g k) \<noteq> 0" and "status_m (matches g k) = STAKED"
    and "unat (startTime_m (matches g k)) + unat (timeout g) < 2 ^ 256"
    and "now < startTime_m (matches g k) + timeout g"
  shows "refund now k g = Inl (Revert ''Timeout not reached'')"
  using assms
  by (simp add: refund_def transact_def refund_body_def refund_requires_def checked_add_def not_le)

lemma refund_needs_two_stakes:
  assumes r: "refund now k g = Inr g'"
    and fl: "p1Staked_m (matches g k)" "p2Staked_m (matches g k)"
    and o1: "p1_m (matches g k) \<noteq> self g"
  shows "can_pay g (2 * unat (stake_m (matches g k)))"
proof -
  let ?s = "stake_m (matches g k)"
  from r fl obtain t1 t2 where
    tr1: "gt_transfer (self g) (p1_m (matches g k)) ?s (gameToken g) = Inr t1"
    and tr2: "gt_transfer (self g) (p2_m (matches g k)) ?s t1 = Inr t2"
    by (auto simp: refund_Inr refund_pay_def)
  from tr1 have np: "\<not> paused (gameToken g)" and s0: "self g \<noteq> 0"
    by (simp_all add: gt_transfer_Inr)
  have a: "unat (balances t1 (self g)) + unat ?s = unat (balances (gameToken g) (self g))"
    using gt_transfer_balances(3) [OF tr1 o1] .
  from tr2 have "unat ?s \<le> unat (balances t1 (self g))"
    by (simp add: gt_transfer_Inr word_le_nat_alt)
  with a np s0 show ?thesis
    by (simp add: can_pay_def)
qed

text \<open>
  Claim C5, as amended. For a match in status \<open>STAKED\<close> whose deadline
  \<open>startTime + timeout\<close> fits in a \<open>uint256\<close>, in any state reached from a fresh
  deployment by transactions that the contract itself does not send: before the
  deadline \<open>refund\<close> fails with \<open>Timeout not reached\<close> and changes nothing; from the
  deadline on it succeeds exactly when the token lets the contract pay twice the stake
  (\<open>can_pay\<close>), and otherwise fails and changes nothing. When it succeeds the status is
  \<open>REFUNDED\<close>, both flags were set, each player has been sent exactly the stake, the
  contract holds two stakes less, and the escrow of the match is 0. When the token's
  books were in order at deployment and the contract is not at the zero address, the
  contract holds the two stakes, so that the token lets it pay them exactly when it is
  not paused.
\<close>

theorem refund_after_timeout:
  fixes deployer this :: address and token op tmo txs k now sender
  defines "g \<equiv> run (constructor deployer this token op tmo) txs"
  defines "m \<equiv> getMatch k g"
  assumes staked: "status_m m = STAKED"
    and nov: "unat (startTime_m m) + unat (timeout g) < 2 ^ 256"
    and outside: "\<forall>tx\<in>set txs. tx_sender tx \<noteq> this"
  shows "(now < startTime_m m + timeout g \<longrightarrow>
            refund now k g = Inl (Revert ''Timeout not reached'') \<and>
            step g (Tx sender now (Refund k)) = g) \<and>
         (startTime_m m + timeout g \<le> now \<and> can_pay g (2 * unat (stake_m m)) \<longrightarrow>
            (\<exists>g'. refund now k g = Inr g' \<and>
                  getMatch k g' = m\<lparr>status_m := REFUNDED\<rparr> \<and>
                  p1Staked_m m \<and> p2Staked_m m \<and>
                  events g' = events g @ [Refunded k (p1_m m) (stake_m m),
                                          Refunded k (p2_m m) (stake_m m)] \<and>
                  custody k g' = 0 \<and>
                  balances (gameToken g') (p1_m m) = balances (gameToken g) (p1_m m) + stake_m m \<and>
                  balances (gameToken g') (p2_m m) = balances (gameToken g) (p2_m m) + stake_m m \<and>
                  unat (getGTBalance g') + 2 * unat (stake_m m) = unat (getGTBalance g))) \<and>
         (startTime_m m + timeout g \<le> now \<and> \<not> can_pay g (2 * unat (stake_m m)) \<longrightarrow>
            (\<exists>e. refund now k g = Inl e) \<and> step g (Tx sender now (Refund k)) = g) \<and>
         (sound_token this token \<and> this \<noteq> 0 \<longrightarrow>
            2 * unat (stake_m m) \<le> unat (getGTBalance g) \<and>
            can_pay g (2 * unat (stake_m m)) = (\<not> paused (gameToken g)))"
proof -
  have i: "inv g" unfolding g_def by (rule inv_reachable)
  then have ok: "match_ok k (matches g k)" and cu: "custody k g = held (matches g k)"
    by (simp_all add: inv_def)
  have m: "m = matches g k" by (simp add: m_def getMatch_def)
  have self: "self g = this"
    unfolding g_def by (simp add: run_immutable constructor_def)
  have st: "status_m (matches g k) = STAKED" using staked by (simp add: m)
  then have nc: "status_m (matches g k) \<noteq> CREATED" by simp
  note mk = match_ok_not_created [OF ok nc]
  have "outsiders g"
    unfolding g_def using outside by (rule outsiders_reachable)
  then have ns: "p1_m (matches g k) \<noteq> self g" "p2_m (matches g k) \<noteq> self g"
    using mk(7,8) by (auto simp: outsiders_def)
  have c1: "now < startTime_m m + timeout g \<longrightarrow>
            refund now k g = Inl (Revert ''Timeout not reached'') \<and>
            step g (Tx sender now (Refund k)) = g"
  proof
    assume "now < startTime_m m + timeout g"
    then have r: "refund now k g = Inl (Revert ''Timeout not reached'')"
      using mk(1) st nov by (simp add: m refund_before_deadline)
    then show "refund now k g = Inl (Revert ''Timeout not reached'') \<and>
            step g (Tx sender now (Refund k)) = g"
      by simp
  qed
  have c3: "startTime_m m + timeout g \<le> now \<and> \<not> can_pay g (2 * unat (stake_m m)) \<longrightarrow>
            (\<exists>e. refund now k g = Inl e) \<and> step g (Tx sender now (Refund k)) = g"
  proof
    assume a: "startTime_m m + timeout g \<le> now \<and> \<not> can_pay g (2 * unat (stake_m m))"
    have r: "\<exists>e. refund now k g = Inl e"
    proof (rule not_Inr_Inl)
      fix y
      show "refund now k g \<noteq> Inr y"
        using a mk(7,8) ns(1) refund_needs_two_stakes [of now k g y] by (auto simp: m)
    qed
    then show "(\<exists>e. refund now k g = Inl e) \<and> step g (Tx sender now (Refund k)) = g"
      by auto
  qed
  have c4: "sound_token this token \<and> this \<noteq> 0 \<longrightarrow>
            2 * unat (stake_m m) \<le> unat (getGTBalance g) \<and>
            can_pay g (2 * unat (stake_m m)) = (\<not> paused (gameToken g))"
  proof
    assume a: "sound_token this token \<and> this \<noteq> 0"
    let ?B = "uint (balances token this) + gifts (constructor deployer this token op tmo) txs"
    have "books ?B g"
      unfolding g_def using a outside by (intro books_reachable) simp_all
    then have e: "uint (balances (gameToken g) (self g)) = ?B + escrow_total g"
      by (simp add: books_def)
    have gn: "0 \<le> gifts (constructor deployer this token op tmo) txs"
      by (rule gifts_nonneg)
    have z: "0 \<le> uint (balances token this)"
      by simp
    have le: "custody k g \<le> escrow_total g"
      using i by (rule custody_le_total)
    have h: "custody k g = 2 * uint (stake_m (matches g k))"
      using cu st mk(7,8) by (simp add: held_def stakedCount_def)
    from e gn z le h have "2 * uint (stake_m (matches g k)) \<le> uint (balances (gameToken g) (self g))"
      by linarith
    then have "2 * int (unat (stake_m (matches g k))) \<le> int (unat (balances (gameToken g) (self g)))"
      by simp
    then have f: "2 * unat (stake_m (matches g k)) \<le> unat (balances (gameToken g) (self g))"
      by linarith
    then show "2 * unat (stake_m m) \<le> unat (getGTBalance g) \<and>
            can_pay g (2 * unat (stake_m m)) = (\<not> paused (gameToken g))"
      using a by (simp add: can_pay_def getGTBalance_def m self)
  qed
  have c2: "startTime_m m + timeout g \<le> now \<and> can_pay g (2 * unat (stake_m m)) \<longrightarrow>
            (\<exists>g'. refund now k g = Inr g' \<and>
                  getMatch k g' = m\<lparr>status_m := REFUNDED\<rparr> \<and>
                  p1Staked_m m \<and> p2Staked_m m \<and>
                  events g' = events g @ [Refunded k (p1_m m) (stake_m m),
                                          Refunded k (p2_m m) (stake_m m)] \<and>
                  custody k g' = 0 \<and>
                  balances (gameToken g') (p1_m m) = balances (gameToken g) (p1_m m) + stake_m m \<and>
                  balances (gameToken g') (p2_m m) = balances (gameToken g) (p2_m m) + stake_m m \<and>
                  unat (getGTBalance g') + 2 * unat (stake_m m) = unat (getGTBalance g))"
  proof
    assume a: "startTime_m m + timeout g \<le> now \<and> can_pay g (2 * unat (stake_m m))"
    then have dl: "startTime_m m + timeout g \<le> now" and cp: "can_pay g (2 * unat (stake_m m))"
      by simp_all
    let ?s = "stake_m (matches g k)" and ?p1 = "p1_m (matches g k)" and ?p2 = "p2_m (matches g k)"
    let ?t = "gameToken g"
    have np: "\<not> paused ?t" and s0: "self g \<noteq> 0"
      and fund: "2 * unat ?s \<le> unat (balances ?t (self g))"
      using cp by (simp_all add: can_pay_def m)
    have "?s \<le> balances ?t (self g)"
      using fund by (simp add: word_le_nat_alt)
    then obtain t1 where tr1: "gt_transfer (self g) ?p1 ?s ?t = Inr t1"
      using np s0 mk(3) by (simp add: gt_transfer_Inr)
    have np1: "\<not> paused t1"
      using tr1 np by (auto simp: gt_transfer_Inr)
    have "unat ?s \<le> unat (balances t1 (self g))"
      using gt_transfer_balances(3) [OF tr1 ns(1)] fund by simp
    then have "?s \<le> balances t1 (self g)"
      by (simp add: word_le_nat_alt)
    then obtain t2 where tr2: "gt_transfer (self g) ?p2 ?s t1 = Inr t2"
      using np1 s0 mk(4) by (simp add: gt_transfer_Inr)
    define g' where "g' = g\<lparr>matches := (matches g)(k := (matches g k)\<lparr>status_m := REFUNDED\<rparr>),
                     gameToken := t2,
                     events := events g @ refund_events k (matches g k)\<rparr>"
    have rq: "refund_requires now k g = None"
      using mk(1) st nov dl by (simp add: refund_requires_None m)
    have r: "refund now k g = Inr g'"
      using rq tr1 tr2 mk(7,8) by (simp add: refund_Inr refund_pay_def g'_def)
    have i': "inv g'" using i r by (rule inv_refund)
    have cu': "custody k g' = 0"
      using i' by (simp add: inv_def held_def g'_def)
    have b1: "balances t1 ?p1 = balances ?t ?p1 + ?s"
      and b2: "unat (balances t1 (self g)) + unat ?s = unat (balances ?t (self g))"
      using gt_transfer_balances(1,3) [OF tr1] ns by simp_all
    have b3: "balances t1 ?p2 = balances ?t ?p2"
      using gt_transfer_other [OF tr1, of ?p2] ns mk(5) by simp
    have b4: "balances t2 ?p2 = balances t1 ?p2 + ?s"
      and b5: "unat (balances t2 (self g)) + unat ?s = unat (balances t1 (self g))"
      using gt_transfer_balances(1,3) [OF tr2] ns by simp_all
    have b6: "balances t2 ?p1 = balances t1 ?p1"
      using gt_transfer_other [OF tr2, of ?p1] ns mk(5) by simp
    have "refund now k g = Inr g' \<and>
          getMatch k g' = m\<lparr>status_m := REFUNDED\<rparr> \<and>
          p1Staked_m m \<and> p2Staked_m m \<and>
          events g' = events g @ [Refunded k (p1_m m) (stake_m m),
                                  Refunded k (p2_m m) (stake_m m)] \<and>
          custody k g' = 0 \<and>
          balances (gameToken g') (p1_m m) = balances (gameToken g) (p1_m m) + stake_m m \<and>
          balances (gameToken g') (p2_m m) = balances (gameToken g) (p2_m m) + stake_m m \<and>
          unat (getGTBalance g') + 2 * unat (stake_m m) = unat (getGTBalance g)"
    proof (intro conjI)
      show "refund now k g = Inr g'" by (rule r)
      show "getMatch k g' = m\<lparr>status_m := REFUNDED\<rparr>" by (simp add: g'_def getMatch_def m)
      show "p1Staked_m m" "p2Staked_m m" using mk(7,8) by (simp_all add: m)
      show "events g' = events g @ [Refunded k (p1_m m) (stake_m m),
                                          Refunded k (p2_m m) (stake_m m)]"
        using mk(7,8) by (simp add: g'_def refund_events_def m)
      show "custody k g' = 0" by (rule cu')
      show "balances (gameToken g') (p1_m m) = balances (gameToken g) (p1_m m) + stake_m m"
        using b1 b6 by (simp add: g'_def m)
      show "balances (gameToken g') (p2_m m) = balances (gameToken g) (p2_m m) + stake_m m"
        using b3 b4 by (simp add: g'_def m)
      show "unat (getGTBalance g') + 2 * unat (stake_m m) = unat (getGTBalance g)"
        using b2 b5 by (simp add: g'_def m getGTBalance_def)
    qed
    then show "\<exists>g'. refund now k g = Inr g' \<and>
                  getMatch k g' = m\<lparr>status_m := REFUNDED\<rparr> \<and>
                  p1Staked_m m \<and> p2Staked_m m \<and>
                  events g' = events g @ [Refunded k (p1_m m) (stake_m m),
                                          Refunded k (p2_m m) (stake_m m)] \<and>
                  custody k g' = 0 \<and>
                  balances (gameToken g') (p1_m m) = balances (gameToken g) (p1_m m) + stake_m m \<and>
                  balances (gameToken g') (p2_m m) = balances (gameToken g) (p2_m m) + stake_m m \<and>
                  unat (getGTBalance g') + 2 * unat (stake_m m) = unat (getGTBalance g)"
      by (rule exI)
  qed
  from c1 c2 c3 c4 show ?thesis by blast
qed

theorem refund_after_timeout_witness:
  "status_m (getMatch 7 (run demo_game demo_staked)) = STAKED \<and>
   refund 50000 7 (run demo_game demo_staked) = Inl (Revert ''Timeout not reached'') \<and>
   can_pay (run demo_game demo_staked) 200 \<and>
   (\<exists>g'. refund 100000 7 (run demo_game demo_staked) = Inr g' \<and>
         status_m (getMatch 7 g') = REFUNDED \<and>
         balances (gameToken g') 3 = 1000 \<and> balances (gameToken g') 4 = 1000 \<and>
         unat (getGTBalance g') + 200 = 200 \<and>
         custody 7 g' = 0)"
proof -
  let ?g = "run demo_game demo_staked"
  let ?m = "getMatch 7 ?g"
  have st: "status_m ?m = STAKED"
    by (rule demo_staked_facts)
  have nov: "unat (startTime_m ?m) + unat (timeout ?g) < 2 ^ 256"
    by (simp add: demo_staked_facts)
  note early = refund_after_timeout [where k = 7 and deployer = 1 and this = 9
      and token = "GameToken_constructor 1" and op = 2 and tmo = 86400 and txs = demo_staked
      and now = 50000 and sender = 5, folded demo_game_def, OF st nov demo_staked_senders]
  note late = refund_after_timeout [where k = 7 and deployer = 1 and this = 9
      and token = "GameToken_constructor 1" and op = 2 and tmo = 86400 and txs = demo_staked
      and now = 100000 and sender = 5, folded demo_game_def, OF st nov demo_staked_senders]
  have a: "refund 50000 7 ?g = Inl (Revert ''Timeout not reached'')"
    using early [THEN conjunct1] by (simp add: demo_staked_facts)
  have snd: "sound_token 9 (GameToken_constructor 1) \<and> (9::address) \<noteq> 0"
    using sound_fresh_token by simp
  have np: "\<not> paused (gameToken ?g)"
    by (simp add: demo_staked_facts)
  have cp: "can_pay ?g (2 * unat (stake_m ?m))"
    using late [THEN conjunct2, THEN conjunct2, THEN conjunct2, THEN mp, OF snd] np by simp
  have dl: "startTime_m ?m + timeout ?g \<le> 100000"
    by (simp add: demo_staked_facts)
  from dl cp have pre: "startTime_m ?m + timeout ?g \<le> 100000 \<and> can_pay ?g (2 * unat (stake_m ?m))"
    by simp
  from late [THEN conjunct2, THEN conjunct1, THEN mp, OF pre] obtain g' where
    g': "refund 100000 7 ?g = Inr g' \<and>
         getMatch 7 g' = ?m\<lparr>status_m := REFUNDED\<rparr> \<and>
         p1Staked_m ?m \<and> p2Staked_m ?m \<and>
         events g' = events ?g @ [Refunded 7 (p1_m ?m) (stake_m ?m), Refunded 7 (p2_m ?m) (stake_m ?m)] \<and>
         custody 7 g' = 0 \<and>
         balances (gameToken g') (p1_m ?m) = balances (gameToken ?g) (p1_m ?m) + stake_m ?m \<and>
         balances (gameToken g') (p2_m ?m) = balances (gameToken ?g) (p2_m ?m) + stake_m ?m \<and>
         unat (getGTBalance g') + 2 * unat (stake_m ?m) = unat (getGTBalance ?g)"
    by (rule exE)
  have b: "refund 100000 7 ?g = Inr g'" and c: "status_m (getMatch 7 g') = REFUNDED"
    and d: "custody 7 g' = 0"
    using g' by simp_all
  have e: "balances (gameToken g') 3 = 1000 \<and> balances (gameToken g') 4 = 1000 \<and>
           unat (getGTBalance g') + 200 = 200"
    using g' [THEN conjunct2, THEN conjunct2, THEN conjunct2, THEN conjunct2, THEN conjunct2,
      THEN conjunct2]
    by (simp add: demo_staked_facts getGTBalance_def)
  have f: "can_pay ?g 200"
    using cp by (simp add: demo_staked_facts)
  from st a b c d e f show ?thesis by blast
qed

theorem refund_paused_counterexample:
  "status_m (getMatch 7 (run demo_game demo_paused)) = STAKED \<and>
   startTime_m (getMatch 7 (run demo_game demo_paused)) = 3000 \<and>
   timeout (run demo_game demo_paused) = 86400 \<and>
   refund 100000 7 (run demo_game demo_paused) = Inl (Revert ''Pausable: paused'') \<and>
   status_m (getMatch 7 (step (run demo_game demo_paused) (Tx 5 100000 (Refund 7)))) = STAKED"
  by (simp add: demo_more)

section \<open>canRefund\<close>

lemma deadline_nat:
  "unat (a::uint256) + unat (b::uint256) \<le> unat (c::uint256) \<longleftrightarrow>
   unat a + unat b < 2 ^ 256 \<and> a + b \<le> c"
proof
  assume le: "unat a + unat b \<le> unat c"
  have "unat c < 2 ^ 256" using unsigned_less [of c] by simp
  with le have lt: "unat a + unat b < 2 ^ 256" by simp
  then have "unat (a + b) = unat a + unat b" by (simp add: unat_word_ariths)
  with le lt show "unat a + unat b < 2 ^ 256 \<and> a + b \<le> c" by (simp add: word_le_nat_alt)
next
  assume r: "unat a + unat b < 2 ^ 256 \<and> a + b \<le> c"
  then have "unat (a + b) = unat a + unat b" by (simp add: unat_word_ariths)
  with r show "unat a + unat b \<le> unat c" by (simp add: word_le_nat_alt)
qed

lemma canRefund_True:
  "canRefund now k g = Inr True \<longleftrightarrow> refund_requires now k g = None"
  by (auto simp: canRefund_def refund_requires_def Let_def split: sum.splits)

lemma refund_after_requires:
  assumes "refund_requires now k g = None"
  shows "(\<exists>g'. refund now k g = Inr g') \<longleftrightarrow> (\<exists>t. refund_payments k g = Inr t)"
  using assms by (auto simp: refund_Inr refund_payments_def Let_def split: sum.splits)

text \<open>
  Claim C9, as amended. \<open>canRefund\<close> returns \<open>true\<close> exactly when the three
  \<open>require\<close>s of \<open>refund\<close> pass at the same timestamp: the match exists, its status is
  \<open>STAKED\<close>, and the timestamp is at or after \<open>startTime + timeout\<close>. Whenever
  \<open>refund\<close> succeeds \<open>canRefund\<close> is \<open>true\<close>; when \<open>canRefund\<close> is \<open>true\<close>,
  \<open>refund\<close> succeeds exactly when its token transfers do.
\<close>

theorem canRefund_iff_requires:
  "(canRefund now k g = Inr True \<longleftrightarrow> refund_requires now k g = None) \<and>
   (canRefund now k g = Inr True \<longleftrightarrow>
      id_m (getMatch k g) \<noteq> 0 \<and> status_m (getMatch k g) = STAKED \<and>
      unat (startTime_m (getMatch k g)) + unat (timeout g) \<le> unat now) \<and>
   (\<forall>g'. refund now k g = Inr g' \<longrightarrow> canRefund now k g = Inr True) \<and>
   (canRefund now k g = Inr True \<longrightarrow>
      ((\<exists>g'. refund now k g = Inr g') \<longleftrightarrow> (\<exists>t. refund_payments k g = Inr t)))"
proof (intro conjI allI impI)
  show a: "canRefund now k g = Inr True \<longleftrightarrow> refund_requires now k g = None"
    by (rule canRefund_True)
  show "canRefund now k g = Inr True \<longleftrightarrow>
      id_m (getMatch k g) \<noteq> 0 \<and> status_m (getMatch k g) = STAKED \<and>
      unat (startTime_m (getMatch k g)) + unat (timeout g) \<le> unat now"
    by (simp add: a refund_requires_None deadline_nat getMatch_def)
  show "canRefund now k g = Inr True" if "refund now k g = Inr g'" for g'
    using that by (simp add: a refund_Inr)
  show "(\<exists>g'. refund now k g = Inr g') \<longleftrightarrow> (\<exists>t. refund_payments k g = Inr t)"
    if "canRefund now k g = Inr True"
    using that by (simp add: a refund_after_requires)
qed

theorem canRefund_iff_requires_witness:
  "canRefund 100000 7 (run demo_game demo_staked) = Inr True \<and>
   refund_requires 100000 7 (run demo_game demo_staked) = None \<and>
   (\<exists>g'. refund 100000 7 (run demo_game demo_staked) = Inr g')"
proof -
  let ?g = "run demo_game demo_staked"
  have a: "canRefund 100000 7 ?g = Inr True"
    by (simp add: demo_more)
  have p: "\<exists>t. refund_payments 7 ?g = Inr t"
    by (simp add: demo_more)
  note th = canRefund_iff_requires [of 100000 7 ?g]
  from th a p show ?thesis by blast
qed

theorem canRefund_paused_counterexample:
  "canRefund 100000 7 (run demo_game demo_paused) = Inr True \<and>
   refund 100000 7 (run demo_game demo_paused) = Inl (Revert ''Pausable: paused'')"
  by (simp add: demo_more)


section \<open>A failed stake\<close>

text \<open>
  Claim C6. A \<open>stake\<close> call that fails leaves the state as it was. In particular, when
  the caller passes the checks and the token transfer fails, the body had already set the
  caller's flag (with the status and the start time, if it was the second flag) in its
  working copy, the call fails with the token's error, and the state after the call is
  the state before it.
\<close>

theorem stake_all_or_nothing:
  "(\<forall>e'. stake sender now k g = Inl e' \<longrightarrow> step g (Tx sender now (Stake k)) = g) \<and>
   (may_stake sender (getMatch k g) \<and>
    gt_transferFrom (self g) sender (self g) (stake_m (getMatch k g)) (gameToken g) = Inl e \<longrightarrow>
      stake_body sender now k g =
        (Some e, g\<lparr>matches := (matches g)(k := staked_match sender now (getMatch k g))\<rparr>) \<and>
      (if sender = p1_m (getMatch k g) then p1Staked_m (staked_match sender now (getMatch k g))
       else p2Staked_m (staked_match sender now (getMatch k g))) \<and>
      stake sender now k g = Inl e \<and>
      step g (Tx sender now (Stake k)) = g)"
proof (intro conjI allI impI; (elim conjE)?)
  show "step g (Tx sender now (Stake k)) = g" if "stake sender now k g = Inl e'" for e'
    using that by simp
next
  assume ms: "may_stake sender (getMatch k g)"
    and tf: "gt_transferFrom (self g) sender (self g) (stake_m (getMatch k g)) (gameToken g) = Inl e"
  show b: "stake_body sender now k g =
        (Some e, g\<lparr>matches := (matches g)(k := staked_match sender now (getMatch k g))\<rparr>)"
    using ms tf by (simp add: stake_body_eq may_stake_def getMatch_def)
  show "if sender = p1_m (getMatch k g) then p1Staked_m (staked_match sender now (getMatch k g))
       else p2Staked_m (staked_match sender now (getMatch k g))"
    by (simp add: staked_match_def Let_def)
  show r: "stake sender now k g = Inl e"
    using b by (simp add: stake_def transact_def)
  show "step g (Tx sender now (Stake k)) = g"
    using r by simp
qed

theorem stake_all_or_nothing_witness:
  "may_stake 3 (getMatch 7 (run demo_game demo_unapproved)) \<and>
   stake 3 2000 7 (run demo_game demo_unapproved) = Inl (Revert ''ERC20: insufficient allowance'') \<and>
   p1Staked_m (staked_match 3 2000 (getMatch 7 (run demo_game demo_unapproved))) \<and>
   step (run demo_game demo_unapproved) (Tx 3 2000 (Stake 7)) = run demo_game demo_unapproved \<and>
   p1Staked_m (getMatch 7 (step (run demo_game demo_unapproved) (Tx 3 2000 (Stake 7)))) = False"
proof -
  let ?g = "run demo_game demo_unapproved"
  have ms: "may_stake 3 (getMatch 7 ?g)"
    by (simp add: demo_more may_stake_def)
  have tf: "gt_transferFrom (self ?g) 3 (self ?g) (stake_m (getMatch 7 ?g)) (gameToken ?g) =
              Inl (Revert ''ERC20: insufficient allowance'')"
    by (simp add: demo_more)
  have p1: "3 = p1_m (getMatch 7 ?g)"
    by (simp add: demo_more)
  have fl: "p1Staked_m (getMatch 7 ?g) = False"
    by (simp add: demo_more)
  note th = stake_all_or_nothing [of 3 2000 7 ?g "Revert ''ERC20: insufficient allowance''",
      THEN conjunct2, THEN mp, OF conjI [OF ms tf]]
  have a: "stake 3 2000 7 ?g = Inl (Revert ''ERC20: insufficient allowance'')"
    and b: "step ?g (Tx 3 2000 (Stake 7)) = ?g"
    using th by blast+
  have c: "p1Staked_m (staked_match 3 2000 (getMatch 7 ?g))"
    using th p1 by (simp del: step.simps)
  from ms a b c fl show ?thesis by (simp del: step.simps)
qed


section \<open>Match ids\<close>

lemma id_staked_match [simp]: "id_m (staked_match sender now m) = id_m m"
  by (simp add: staked_match_def Let_def)

lemma id_exec:
  assumes "exec sender now c g = Inr g'"
  shows "id_m (matches g' k) \<noteq> 0 \<longleftrightarrow>
         id_m (matches g k) \<noteq> 0 \<or> (\<exists>p1 p2 stk. c = CreateMatch k p1 p2 stk)"
proof (cases c)
  case (CreateMatch j p1 p2 stk)
  then show ?thesis using assms by (cases "j = k") (auto simp: createMatch_Inr)
next
  case (Stake j)
  then show ?thesis using assms by (cases "j = k") (auto simp: stake_Inr)
next
  case (CommitResult j w)
  then show ?thesis using assms by (cases "j = k") (auto simp: commitResult_Inr)
next
  case (Refund j)
  then show ?thesis using assms by (cases "j = k") (auto simp: refund_Inr)
next
  case (TransferOwnership a)
  then show ?thesis using assms by (auto simp: transferOwnership_def split: if_splits)
next
  case RenounceOwnership
  then show ?thesis using assms by (auto simp: renounceOwnership_def split: if_splits)
next
  case (Token tc)
  then show ?thesis using assms by (auto split: sum.splits)
qed

lemma id_step:
  "id_m (matches (step g tx) k) \<noteq> 0 \<longleftrightarrow> id_m (matches g k) \<noteq> 0 \<or> creates g tx k"
proof (cases tx)
  case (Tx sender now c)
  show ?thesis
  proof (cases "exec sender now c g")
    case (Inl e)
    have "\<not> creates g tx k"
      using Tx Inl by (cases c) simp_all
    moreover have "step g tx = g"
      using Tx Inl by simp
    ultimately show ?thesis by simp
  next
    case (Inr g')
    have "creates g tx k \<longleftrightarrow> (\<exists>p1 p2 stk. c = CreateMatch k p1 p2 stk)"
      using Tx Inr by (cases c) auto
    moreover have "step g tx = g'"
      using Tx Inr by simp
    ultimately show ?thesis
      using id_exec [OF Inr, of k] by simp
  qed
qed

lemma id_run:
  "id_m (matches (run g txs) k) \<noteq> 0 \<longleftrightarrow> id_m (matches g k) \<noteq> 0 \<or> created_in g txs k"
proof (induction txs arbitrary: g)
  case Nil
  show ?case by simp
next
  case (Cons tx txs)
  have "id_m (matches (run (step g tx) txs) k) \<noteq> 0 \<longleftrightarrow>
        id_m (matches (step g tx) k) \<noteq> 0 \<or> created_in (step g tx) txs k"
    by (rule Cons.IH)
  then show ?case
    using id_step [of g tx k] by auto
qed

lemma createMatch_zero_id:
  "createMatch sender 0 p1 p2 stk g =
     Inl (Revert (if owner g = sender then ''Invalid match ID''
                  else ''Ownable: caller is not the owner''))"
  by (simp add: createMatch_def transact_def createMatch_body_def)

text \<open>
  Claim C10. In any state reached from a fresh deployment, \<open>getMatch\<close> returns a record
  with a non-zero \<open>id\<close> exactly for the ids of which a \<open>createMatch\<close> call has
  succeeded, and then the \<open>id\<close> field is that id; for every other id it returns the
  all-zero record, whose status reads \<open>CREATED\<close>. \<open>createMatch\<close> rejects the zero id
  in every state, so no match was ever created with it.
\<close>

theorem getMatch_id_sentinel:
  fixes deployer this :: address and token op tmo txs k
  defines "g0 \<equiv> constructor deployer this token op tmo"
  defines "g \<equiv> run g0 txs"
  shows "(id_m (getMatch k g) \<noteq> 0 \<longleftrightarrow> created_in g0 txs k) \<and>
         (created_in g0 txs k \<longrightarrow> id_m (getMatch k g) = k) \<and>
         (\<not> created_in g0 txs k \<longrightarrow> getMatch k g = zero_Match \<and> status_m (getMatch k g) = CREATED) \<and>
         \<not> created_in g0 txs 0 \<and>
         (\<forall>sender p1 p2 stk. createMatch sender 0 p1 p2 stk g =
            Inl (Revert (if owner g = sender then ''Invalid match ID''
                         else ''Ownable: caller is not the owner'')))"
proof -
  have i: "inv g" unfolding g_def g0_def by (rule inv_reachable)
  have ok: "match_ok j (matches g j)" for j
    using i by (simp add: inv_def)
  have a: "id_m (getMatch j g) \<noteq> 0 \<longleftrightarrow> created_in g0 txs j" for j
  proof -
    have "id_m (matches g0 j) = 0"
      by (simp add: g0_def constructor_def zero_Match_def)
    then show ?thesis
      using id_run [of g0 txs j] by (simp add: g_def getMatch_def)
  qed
  have b: "created_in g0 txs j \<longrightarrow> id_m (getMatch j g) = j" for j
    using ok [of j] a [of j] by (auto simp: match_ok_def getMatch_def split: if_splits)
  have c: "\<not> created_in g0 txs k \<longrightarrow> getMatch k g = zero_Match \<and> status_m (getMatch k g) = CREATED"
    using ok [of k] a [of k] by (auto simp: match_ok_def getMatch_def zero_Match_def split: if_splits)
  have d: "\<not> created_in g0 txs 0"
    using a [of 0] b [of 0] by auto
  from a [of k] b [of k] c d show ?thesis
    by (simp add: createMatch_zero_id zero_Match_def)
qed

theorem getMatch_id_sentinel_witness:
  "created_in demo_game demo_setup 7 \<and>
   id_m (getMatch 7 (run demo_game demo_setup)) = 7 \<and>
   \<not> created_in demo_game demo_setup 8 \<and>
   getMatch 8 (run demo_game demo_setup) = zero_Match"
proof -
  have a: "created_in demo_game demo_setup 7"
    by (simp add: demo_simps)
  have b: "\<not> created_in demo_game demo_setup 8"
    by (simp add: demo_simps)
  note th7 = getMatch_id_sentinel [of 7 1 9 "GameToken_constructor 1" 2 86400 demo_setup,
      folded demo_game_def]
  note th8 = getMatch_id_sentinel [of 8 1 9 "GameToken_constructor 1" 2 86400 demo_setup,
      folded demo_game_def]
  from th7 th8 a b show ?thesis by blast
qed

section \<open>The indexer\<close>

lemma find_map_add_stats:
  "find (\<lambda>r. address_p r = a)
     (map (\<lambda>r. if address_p r = a then add_stats f w t n r else r) rs) =
   map_option (add_stats f w t n) (find (\<lambda>r. address_p r = a) rs)"
  by (induction rs) (auto simp: add_stats_def)

lemma find_append_new:
  "find (\<lambda>r. address_p r = a) rs = None \<Longrightarrow>
   find (\<lambda>r. address_p r = a) (rs @ [r]) = (if address_p r = a then Some r else None)"
  by (induction rs) (auto split: if_splits)

lemma updatePlayerStats_events:
  "events_tbl (updatePlayerStats f a w t n db) = events_tbl db"
  by (simp add: updatePlayerStats_def split: option.splits)

lemma updatePlayerStats_find:
  "find (\<lambda>r. address_p r = a) (players_tbl (updatePlayerStats f a w t n db)) =
     (case find (\<lambda>r. address_p r = a) (players_tbl db) of
        None \<Rightarrow> Some \<lparr>address_p = a, wins_p = w, total_gt_won_p = t, matches_played_p = n\<rparr>
      | Some r \<Rightarrow> Some (add_stats f w t n r))"
  by (simp add: updatePlayerStats_def find_map_add_stats find_append_new split: option.splits)

lemma handleSettledEvent_events:
  "events_tbl (handleSettledEvent f matchId winner amount blockNumber transactionHash db) =
     events_tbl db @
       [\<lparr>event_type_e = ''Settled'', address_e = toLowerCase winner, amount_e = toString amount,
         match_id_e = matchId, block_number_e = blockNumber,
         transaction_hash_e = transactionHash\<rparr>]"
  by (simp add: handleSettledEvent_def Let_def updatePlayerStats_events logEvent_def)

lemma handleSettledEvent_stats:
  "getPlayerStats winner (handleSettledEvent f matchId winner amount blockNumber transactionHash db) =
     (case getPlayerStats winner db of
        None \<Rightarrow> Some \<lparr>address_p = toLowerCase winner, wins_p = 1,
                       total_gt_won_p = toString amount, matches_played_p = 1\<rparr>
      | Some r \<Rightarrow> Some (add_stats f 1 (toString amount) 1 r))"
  by (simp add: handleSettledEvent_def Let_def getPlayerStats_def updatePlayerStats_find logEvent_def)

text \<open>
  Claim C3, as amended. The indexer keeps no record of the events it has applied. When
  the same \<open>Settled\<close> event is handled a second time, the winner's \<open>wins\<close> and
  \<open>matches_played\<close> are each one more than after the first time, the database has
  added the amount to \<open>total_gt_won\<close> once more, and the events table holds a second
  row for the event: the state after two deliveries is not the state after one.
\<close>

theorem settled_twice_counts_twice:
  fixes cast_add :: "string \<Rightarrow> string \<Rightarrow> string"
    and matchId winner :: string and amount :: nat and blockNumber :: int
    and transactionHash :: string and db :: Database
  defines "db1 \<equiv> handleSettledEvent cast_add matchId winner amount blockNumber transactionHash db"
  defines "db2 \<equiv> handleSettledEvent cast_add matchId winner amount blockNumber transactionHash db1"
  defines "row \<equiv> \<lparr>event_type_e = ''Settled'', address_e = toLowerCase winner,
                   amount_e = toString amount, match_id_e = matchId,
                   block_number_e = blockNumber, transaction_hash_e = transactionHash\<rparr>"
  shows "\<exists>r1 r2. getPlayerStats winner db1 = Some r1 \<and> getPlayerStats winner db2 = Some r2 \<and>
           wins_p r2 = wins_p r1 + 1 \<and>
           matches_played_p r2 = matches_played_p r1 + 1 \<and>
           total_gt_won_p r2 = cast_add (total_gt_won_p r1) (toString amount) \<and>
           r2 \<noteq> r1 \<and> db2 \<noteq> db1 \<and>
           events_tbl db1 = events_tbl db @ [row] \<and>
           events_tbl db2 = events_tbl db @ [row, row]"
proof -
  have "\<exists>r1. getPlayerStats winner db1 = Some r1"
    unfolding db1_def
    by (cases "getPlayerStats winner db") (simp_all add: handleSettledEvent_stats)
  then obtain r1 where r1: "getPlayerStats winner db1 = Some r1" ..
  define r2 where "r2 = add_stats cast_add 1 (toString amount) 1 r1"
  have r2: "getPlayerStats winner db2 = Some r2"
    unfolding db2_def by (simp add: handleSettledEvent_stats r1 r2_def)
  have w: "wins_p r2 = wins_p r1 + 1" and p: "matches_played_p r2 = matches_played_p r1 + 1"
    and t: "total_gt_won_p r2 = cast_add (total_gt_won_p r1) (toString amount)"
    by (simp_all add: r2_def add_stats_def)
  from w have ne: "r2 \<noteq> r1" by auto
  with r1 r2 have dne: "db2 \<noteq> db1" by auto
  have e1: "events_tbl db1 = events_tbl db @ [row]"
    by (simp add: db1_def row_def handleSettledEvent_events)
  have e2: "events_tbl db2 = events_tbl db @ [row, row]"
    by (simp add: db2_def row_def handleSettledEvent_events e1 [unfolded row_def])
  from r1 r2 w p t ne dne e1 e2 show ?thesis by blast
qed

lemma lower_aa: "toLowerCase ''0xAA'' = ''0xaa''"
  by code_simp

lemma lower_bb: "toLowerCase ''0xBB'' = ''0xbb''"
  by code_simp

lemma text_200: "toString 200 = ''200''"
  by code_simp

lemma add_200_200: "exact_add ''200'' ''200'' = ''400''"
  by code_simp

lemma demo_settled_aa:
  "settled_aa empty_db =
     \<lparr>players_tbl = [\<lparr>address_p = ''0xaa'', wins_p = 1, total_gt_won_p = ''200'', matches_played_p = 1\<rparr>],
      events_tbl = [\<lparr>event_type_e = ''Settled'', address_e = ''0xaa'', amount_e = ''200'',
                     match_id_e = ''0x01'', block_number_e = 12, transaction_hash_e = ''0xf1''\<rparr>]\<rparr>"
  by (simp add: settled_aa_def empty_db_def handleSettledEvent_def logEvent_def
        updatePlayerStats_def lower_aa text_200 Let_def)

lemma demo_settled_aa_twice:
  "settled_aa (settled_aa empty_db) =
     \<lparr>players_tbl = [\<lparr>address_p = ''0xaa'', wins_p = 2, total_gt_won_p = ''400'', matches_played_p = 2\<rparr>],
      events_tbl = [\<lparr>event_type_e = ''Settled'', address_e = ''0xaa'', amount_e = ''200'',
                     match_id_e = ''0x01'', block_number_e = 12, transaction_hash_e = ''0xf1''\<rparr>,
                    \<lparr>event_type_e = ''Settled'', address_e = ''0xaa'', amount_e = ''200'',
                     match_id_e = ''0x01'', block_number_e = 12, transaction_hash_e = ''0xf1''\<rparr>]\<rparr>"
  by (simp add: demo_settled_aa)
     (simp add: settled_aa_def handleSettledEvent_def logEvent_def
        updatePlayerStats_def lower_aa text_200 add_200_200 Let_def add_stats_def)

theorem settled_twice_counts_twice_witness:
  "\<exists>r1 r2. getPlayerStats ''0xAA'' (settled_aa empty_db) = Some r1 \<and>
      getPlayerStats ''0xAA'' (settled_aa (settled_aa empty_db)) = Some r2 \<and>
      wins_p r1 = 1 \<and> wins_p r2 = 2 \<and>
      matches_played_p r1 = 1 \<and> matches_played_p r2 = 2 \<and>
      total_gt_won_p r1 = ''200'' \<and> total_gt_won_p r2 = ''400'' \<and>
      length (events_tbl (settled_aa (settled_aa empty_db))) = 2"
proof -
  have r1: "getPlayerStats ''0xAA'' (settled_aa empty_db) = Some row_aa"
    by (simp add: demo_settled_aa getPlayerStats_def lower_aa row_aa_def)
  from settled_twice_counts_twice [where cast_add = exact_add and matchId = "''0x01''"
      and winner = "''0xAA''" and amount = 200 and blockNumber = 12
      and transactionHash = "''0xf1''" and db = empty_db, folded settled_aa_def]
  obtain r2 where "getPlayerStats ''0xAA'' (settled_aa (settled_aa empty_db)) = Some r2"
    and "wins_p r2 = wins_p row_aa + 1"
    and "matches_played_p r2 = matches_played_p row_aa + 1"
    and "total_gt_won_p r2 = exact_add (total_gt_won_p row_aa) (toString 200)"
    and "length (events_tbl (settled_aa (settled_aa empty_db))) = length (events_tbl empty_db) + 2"
    using r1 by auto
  then show ?thesis
    using r1 by (simp add: row_aa_def empty_db_def text_200 add_200_200)
qed

theorem settled_replay_counterexample:
  "getPlayerStats ''0xAA'' (settled_aa empty_db) =
     Some \<lparr>address_p = ''0xaa'', wins_p = 1, total_gt_won_p = ''200'', matches_played_p = 1\<rparr> \<and>
   getPlayerStats ''0xAA'' (settled_aa (settled_aa empty_db)) =
     Some \<lparr>address_p = ''0xaa'', wins_p = 2, total_gt_won_p = ''400'', matches_played_p = 2\<rparr> \<and>
   settled_aa (settled_aa empty_db) \<noteq> settled_aa empty_db"
  by (simp add: demo_settled_aa_twice) (simp add: demo_settled_aa getPlayerStats_def lower_aa)

section \<open>The leaderboard query\<close>

lemma ranks_before_key: "ranks_before f a b \<longleftrightarrow> rank_key f a \<le> rank_key f b"
  by (auto simp: ranks_before_def rank_key_def less_eq_prod_def)

lemma sorted_wrt_ranks: "sorted_wrt (ranks_before f) (sort_key (rank_key f) rs)"
proof -
  have "sorted (map (rank_key f) (sort_key (rank_key f) rs))"
    by (rule sorted_sort_key)
  then have "sorted_wrt (\<lambda>a b. rank_key f a \<le> rank_key f b) (sort_key (rank_key f) rs)"
    by (simp add: sorted_wrt_map)
  then show ?thesis
    by (simp add: ranks_before_key [abs_def])
qed

lemma sql_limit_split:
  "\<exists>rest. xs = sql_limit n xs @ rest \<and>
          length (sql_limit n xs) = (if n < 0 then length xs else min (nat n) (length xs))"
  by (cases "n < 0") (auto simp: sql_limit_def intro: exI [of _ "drop (nat n) xs"])


lemma demo_leaderboard: "getLeaderboard exact_decimal 2 demo_players = [row_cc, row_bb]"
  by (simp add: getLeaderboard_def demo_players_def sql_limit_def rank_key_def exact_decimal_def
        text_value_def row_aa_def row_bb_def row_cc_def)


lemma demo_settled_ab:
  "settled_bb (settled_aa empty_db) =
      \<lparr>players_tbl = [row_aa, row_bb],
       events_tbl = [\<lparr>event_type_e = ''Settled'', address_e = ''0xaa'', amount_e = ''200'',
                      match_id_e = ''0x01'', block_number_e = 12, transaction_hash_e = ''0xf1''\<rparr>,
                     \<lparr>event_type_e = ''Settled'', address_e = ''0xbb'', amount_e = ''200'',
                      match_id_e = ''0x02'', block_number_e = 13, transaction_hash_e = ''0xf2''\<rparr>]\<rparr>"
  by (simp add: demo_settled_aa)
     (simp add: settled_bb_def handleSettledEvent_def logEvent_def updatePlayerStats_def lower_bb
        text_200 Let_def row_aa_def row_bb_def)

lemma demo_settled_ba:
  "settled_aa (settled_bb empty_db) =
      \<lparr>players_tbl = [row_bb, row_aa],
       events_tbl = [\<lparr>event_type_e = ''Settled'', address_e = ''0xbb'', amount_e = ''200'',
                      match_id_e = ''0x02'', block_number_e = 13, transaction_hash_e = ''0xf2''\<rparr>,
                     \<lparr>event_type_e = ''Settled'', address_e = ''0xaa'', amount_e = ''200'',
                      match_id_e = ''0x01'', block_number_e = 12, transaction_hash_e = ''0xf1''\<rparr>]\<rparr>"
  by (simp add: settled_aa_def settled_bb_def empty_db_def handleSettledEvent_def logEvent_def
        updatePlayerStats_def lower_aa lower_bb text_200 Let_def row_aa_def row_bb_def)


end
